theory Spec2Isabelle
  imports Main
begin

section \<open>Record model of \<^verbatim>\<open>year_in_pixels.py\<close>\<close>

text \<open>
  A character of a Python string is its Unicode code point, a natural number, and a text
  is a list of characters (the type \<open>str\<close>); \<open>u\<close> turns a literal into a text and \<open>ch\<close> a literal character
  into a character.  Python integers are \<open>int\<close>.  A raised exception is the left summand
  of a sum type; \<open>OSError\<close> stands for the class and those of its subclasses that have no
  name of their own here.
\<close>

type_synonym str = "nat list"

abbreviation (input) ch :: "char \<Rightarrow> nat" where
  "ch c \<equiv> of_char c"

definition u :: "string \<Rightarrow> str" where
  "u s = map of_char s"

datatype error =
    ValueError | KeyError | TypeError | IndexError
  | FileNotFoundError | FileExistsError | OSError | UnicodeEncodeError | CsvError

text \<open>
  What the interpreter and the system supply.  The decimal digits of the Unicode database
  come in runs of ten, from zero to nine; the run of the ASCII digits starts at 48 and
  \<open>zeros\<close> lists the zeros of the other runs of the database of the interpreter, none of
  which lies below 128.  \<open>codec\<close> is the codec of the locale, through which a text file
  is written and read: it is \<open>None\<close> for a character that the encoder refuses, and else
  the character that the decoder reads from the bytes of the character.  \<open>tempdir\<close> is
  the value of \<^verbatim>\<open>tempfile.gettempdir()\<close> and \<open>names\<close> are the candidate names of
  \<^verbatim>\<open>tempfile\<close>, in the order in which it tries them.
\<close>

record env =
  zeros :: "nat list"
  codec :: "nat \<Rightarrow> nat option"
  tempdir :: str
  names :: "str list"

type_synonym color = "nat \<times> nat \<times> nat"

definition pink :: color where "pink = (0xff, 0, 0xff)"
definition lblue :: color where "lblue = (0, 0xff, 0xff)"
definition mblue :: color where "mblue = (0, 0, 0xff)"
definition green :: color where "green = (0, 0xff, 0)"
definition navy :: color where "navy = (0, 0, 0x80)"
definition yellow :: color where "yellow = (0xff, 0xff, 0)"
definition orange :: color where "orange = (0xff, 0xa5, 0x00)"
definition black :: color where "black = (0, 0, 0)"

text \<open>The enumeration \<^verbatim>\<open>DayMood\<close>; \<open>name\<close>, \<open>desc\<close> and \<open>color\<close> are its attributes.\<close>

datatype DayMood = amazing | good | normal | tired | sad | angry | stressed

fun name :: "DayMood \<Rightarrow> str" where
  "name amazing = u ''amazing''"
| "name good = u ''good''"
| "name normal = u ''normal''"
| "name tired = u ''tired''"
| "name sad = u ''sad''"
| "name angry = u ''angry''"
| "name stressed = u ''stressed''"

fun desc :: "DayMood \<Rightarrow> str" where
  "desc amazing = u ''amazing, fantastic day''"
| "desc good = u ''really good, happy day''"
| "desc normal = u ''normal, average day''"
| "desc tired = u ''exhausted, tired day''"
| "desc sad = u ''depressed, sad day''"
| "desc angry = u ''frustrated, angry day''"
| "desc stressed = u ''stressed out, frantic day''"

fun color :: "DayMood \<Rightarrow> color" where
  "color amazing = pink"
| "color good = lblue"
| "color normal = mblue"
| "color tired = green"
| "color sad = navy"
| "color angry = yellow"
| "color stressed = orange"

text \<open>
  \<^verbatim>\<open>DayMood[s]\<close>: lookup of a member by its name, \<^verbatim>\<open>KeyError\<close> for any other
  string.
\<close>

definition DayMood_getitem :: "str \<Rightarrow> error + DayMood" where
  "DayMood_getitem s =
     (if s = u ''amazing'' then Inr amazing
      else if s = u ''good'' then Inr good
      else if s = u ''normal'' then Inr normal
      else if s = u ''tired'' then Inr tired
      else if s = u ''sad'' then Inr sad
      else if s = u ''angry'' then Inr angry
      else if s = u ''stressed'' then Inr stressed
      else Inl KeyError)"

text \<open>
  A \<^verbatim>\<open>datetime.date\<close> value.  The constructor of the library accepts exactly the
  triples that satisfy \<open>valid_date\<close>.
\<close>

record date =
  year :: int
  month :: int
  day :: int

definition is_leap :: "int \<Rightarrow> bool" where
  "is_leap y = (y mod 4 = 0 \<and> (y mod 100 \<noteq> 0 \<or> y mod 400 = 0))"

definition days_in_month :: "int \<Rightarrow> int \<Rightarrow> int" where
  "days_in_month y m =
     (if m = 2 then (if is_leap y then 29 else 28)
      else if m = 4 \<or> m = 6 \<or> m = 9 \<or> m = 11 then 30 else 31)"

definition valid_date :: "date \<Rightarrow> bool" where
  "valid_date d =
     (1 \<le> year d \<and> year d \<le> 9999 \<and> 1 \<le> month d \<and> month d \<le> 12
      \<and> 1 \<le> day d \<and> day d \<le> days_in_month (year d) (month d))"

text \<open>
  \<^verbatim>\<open>DayEntry\<close>.  The comment is a Python string, or \<^verbatim>\<open>None\<close> when the entry was read
  from a row that has no third field.
\<close>

record DayEntry =
  edate :: date
  mood :: DayMood
  comment :: "str option"

section \<open>The \<^verbatim>\<open>log\<close> command: replacing the entry of a day\<close>

text \<open>
  Lines 201 to 206: \<^verbatim>\<open>days = list(filter(lambda d: d.date != day.date, days))\<close>
  followed by \<^verbatim>\<open>days.append(day)\<close>.
\<close>

definition upsert :: "DayEntry list \<Rightarrow> DayEntry \<Rightarrow> DayEntry list" where
  "upsert days e = filter (\<lambda>d. edate d \<noteq> edate e) days @ [e]"

section \<open>The year chart\<close>

text \<open>
  Python list indexing: an index from \<open>-n\<close> to \<open>n - 1\<close> is accepted, a negative one counts
  from the end, any other raises \<^verbatim>\<open>IndexError\<close>.
\<close>

definition py_index :: "nat \<Rightarrow> int \<Rightarrow> error + nat" where
  "py_index n i =
     (if 0 \<le> i \<and> i < int n then Inr (nat i)
      else if - int n \<le> i \<and> i < 0 then Inr (nat (i + int n))
      else Inl IndexError)"

text \<open>The assignment \<^verbatim>\<open>X[i][j] = v\<close>.\<close>

definition set_cell :: "color list list \<Rightarrow> int \<Rightarrow> int \<Rightarrow> color \<Rightarrow> error + color list list" where
  "set_cell X i j v =
     (case py_index (length X) i of
        Inl e \<Rightarrow> Inl e
      | Inr r \<Rightarrow>
          (case py_index (length (X ! r)) j of
             Inl e \<Rightarrow> Inl e
           | Inr c \<Rightarrow> Inr (X[r := (X ! r)[c := v]])))"

text \<open>The loop of lines 109 and 110 of \<^verbatim>\<open>display_year\<close>.\<close>

fun fill_grid :: "color list list \<Rightarrow> DayEntry list \<Rightarrow> error + color list list" where
  "fill_grid X [] = Inr X"
| "fill_grid X (d # ds) =
     (case set_cell X (day (edate d) - 1) (month (edate d) - 1) (color (mood d)) of
        Inl e \<Rightarrow> Inl e
      | Inr X' \<Rightarrow> fill_grid X' ds)"

definition w :: nat where "w = 12"
definition h :: nat where "h = 31"

text \<open>
  Lines 105 to 110 of \<^verbatim>\<open>display_year\<close>: the matrix \<^verbatim>\<open>X\<close>.  The comprehension of line
  107 builds each row anew, so no two rows are the same object and a list of lists
  models the matrix.
\<close>

definition build_year_grid :: "DayEntry list \<Rightarrow> error + color list list" where
  "build_year_grid days = fill_grid (replicate h (replicate w black)) days"

text \<open>
  \<^verbatim>\<open>display_year\<close> hands the matrix to the plotting library; the model returns the
  matrix that is shown.
\<close>

definition display_year :: "DayEntry list \<Rightarrow> error + color list list" where
  "display_year days = build_year_grid days"

section \<open>Dates as text\<close>

text \<open>
  \<^verbatim>\<open>str(date)\<close> is \<^verbatim>\<open>"%04d-%02d-%02d" % (year, month, day)\<close>.
\<close>

definition digit_char :: "nat \<Rightarrow> nat" where
  "digit_char n = 48 + n"

fun dec :: "nat \<Rightarrow> str" where
  "dec n = (if n < 10 then [digit_char n] else dec (n div 10) @ [digit_char (n mod 10)])"

declare dec.simps [simp del]

definition zfill :: "nat \<Rightarrow> str \<Rightarrow> str" where
  "zfill width s = replicate (width - length s) (ch CHR ''0'') @ s"

definition fmt_d :: "nat \<Rightarrow> int \<Rightarrow> str" where
  "fmt_d width i =
     (if i < 0 then ch CHR ''-'' # zfill (width - 1) (dec (nat (- i)))
      else zfill width (dec (nat i)))"

definition isoformat :: "date \<Rightarrow> str" where
  "isoformat d = fmt_d 4 (year d) @ u ''-'' @ fmt_d 2 (month d) @ u ''-'' @ fmt_d 2 (day d)"

text \<open>
  The decimal digits of the database: a character is a digit when it lies in one of the
  runs, and its value is its distance from the zero of the first such run.
\<close>

definition digit_zeros :: "env \<Rightarrow> nat list" where
  "digit_zeros ev = 48 # filter (\<lambda>z. 128 \<le> z) (zeros ev)"

definition digit_run :: "env \<Rightarrow> nat \<Rightarrow> nat option" where
  "digit_run ev c = find (\<lambda>z. z \<le> c \<and> c < z + 10) (digit_zeros ev)"

definition is_digit :: "env \<Rightarrow> nat \<Rightarrow> bool" where
  "is_digit ev c = (digit_run ev c \<noteq> None)"

definition digit_val :: "env \<Rightarrow> nat \<Rightarrow> int" where
  "digit_val ev c = (case digit_run ev c of None \<Rightarrow> 0 | Some z \<Rightarrow> int (c - z))"

text \<open>
  \<^verbatim>\<open>datetime.strptime(s, '%Y-%m-%d')\<close> compiles the format to the regular expression
  \<^verbatim>\<open>(?P<Y>\d\d\d\d)-(?P<m>1[0-2]|0[1-9]|[1-9])-(?P<d>3[0-1]|[1-2]\d|0[1-9]|[1-9]| [1-9])\<close>
  and matches it at the start of the text.  A regular expression is modelled by the list
  of its matches at the start of a text, each with the matched text and the rest, in the
  order in which the backtracking matcher tries them.  The class \<^verbatim>\<open>\d\<close> holds every
  decimal digit of the database, a range such as \<^verbatim>\<open>[0-2]\<close> only the characters between
  its ends.
\<close>

type_synonym rx = "str \<Rightarrow> (str \<times> str) list"

definition rx_chr :: "(nat \<Rightarrow> bool) \<Rightarrow> rx" where
  "rx_chr P s = (case s of [] \<Rightarrow> [] | c # r \<Rightarrow> if P c then [([c], r)] else [])"

definition rx_seq :: "rx \<Rightarrow> rx \<Rightarrow> rx" where
  "rx_seq p q s = concat (map (\<lambda>(a, r). map (\<lambda>(b, r'). (a @ b, r')) (q r)) (p s))"

definition rx_alt :: "rx \<Rightarrow> rx \<Rightarrow> rx" where
  "rx_alt p q s = p s @ q s"

definition in_range :: "char \<Rightarrow> char \<Rightarrow> nat \<Rightarrow> bool" where
  "in_range lo hi c = (ch lo \<le> c \<and> c \<le> ch hi)"

definition rx_Y :: "env \<Rightarrow> rx" where
  "rx_Y ev = rx_seq (rx_chr (is_digit ev)) (rx_seq (rx_chr (is_digit ev))
               (rx_seq (rx_chr (is_digit ev)) (rx_chr (is_digit ev))))"

definition rx_m :: rx where
  "rx_m =
     rx_alt (rx_seq (rx_chr (\<lambda>c. c = ch CHR ''1'')) (rx_chr (in_range CHR ''0'' CHR ''2'')))
    (rx_alt (rx_seq (rx_chr (\<lambda>c. c = ch CHR ''0'')) (rx_chr (in_range CHR ''1'' CHR ''9'')))
            (rx_chr (in_range CHR ''1'' CHR ''9'')))"

definition rx_d :: "env \<Rightarrow> rx" where
  "rx_d ev =
     rx_alt (rx_seq (rx_chr (\<lambda>c. c = ch CHR ''3'')) (rx_chr (in_range CHR ''0'' CHR ''1'')))
    (rx_alt (rx_seq (rx_chr (in_range CHR ''1'' CHR ''2'')) (rx_chr (is_digit ev)))
    (rx_alt (rx_seq (rx_chr (\<lambda>c. c = ch CHR ''0'')) (rx_chr (in_range CHR ''1'' CHR ''9'')))
    (rx_alt (rx_chr (in_range CHR ''1'' CHR ''9''))
            (rx_seq (rx_chr (\<lambda>c. c = ch CHR '' '')) (rx_chr (in_range CHR ''1'' CHR ''9''))))))"

definition rx_dash :: rx where
  "rx_dash = rx_chr (\<lambda>c. c = ch CHR ''-'')"

text \<open>
  The matches of the whole expression, each with the texts of the three groups and the
  unmatched rest: first the day, then the month and the dash after it, then the year and
  the dash after it.
\<close>

definition match_d :: "env \<Rightarrow> str \<Rightarrow> str \<Rightarrow> str \<Rightarrow> (str \<times> str \<times> str \<times> str) list" where
  "match_d ev Y m r4 = map (\<lambda>(d, r5). (Y, m, d, r5)) (rx_d ev r4)"

definition match_m :: "env \<Rightarrow> str \<Rightarrow> str \<Rightarrow> (str \<times> str \<times> str \<times> str) list" where
  "match_m ev Y r2 =
     concat (map (\<lambda>(m, r3). concat (map (\<lambda>(x, r4). match_d ev Y m r4) (rx_dash r3))) (rx_m r2))"

definition format_regex :: "env \<Rightarrow> str \<Rightarrow> (str \<times> str \<times> str \<times> str) list" where
  "format_regex ev s =
     concat (map (\<lambda>(Y, r1). concat (map (\<lambda>(x, r2). match_m ev Y r2) (rx_dash r1))) (rx_Y ev s))"

text \<open>
  \<^verbatim>\<open>int(s)\<close> on a matched group: blanks around the digits are dropped (a group holds at
  most one, in front), and each digit counts with its value.
\<close>

definition py_int :: "env \<Rightarrow> str \<Rightarrow> int" where
  "py_int ev s =
     foldl (\<lambda>a c. 10 * a + digit_val ev c) 0 (dropWhile (\<lambda>c. c = ch CHR '' '') s)"

text \<open>The constructor \<^verbatim>\<open>date(year, month, day)\<close>.\<close>

definition date_new :: "int \<Rightarrow> int \<Rightarrow> int \<Rightarrow> error + date" where
  "date_new y m d =
     (if valid_date \<lparr>year = y, month = m, day = d\<rparr>
      then Inr \<lparr>year = y, month = m, day = d\<rparr> else Inl ValueError)"

text \<open>
  \<^verbatim>\<open>date_from_iso\<close>: no match, text left after the first match, and a triple that is no
  date all raise \<^verbatim>\<open>ValueError\<close>.
\<close>

definition date_from_iso :: "env \<Rightarrow> str \<Rightarrow> error + date" where
  "date_from_iso ev s =
     (case format_regex ev s of
        [] \<Rightarrow> Inl ValueError
      | (Y, m, d, rest) # other \<Rightarrow>
          if rest \<noteq> [] then Inl ValueError
          else date_new (py_int ev Y) (py_int ev m) (py_int ev d))"

text \<open>
  The texts that denote a date under the format.  A digit is written by any character of
  the database with its value.  The year has four digits.  The month is written in ASCII,
  in two digits or, below ten, in one.  The day is written in ASCII in two digits, or from
  10 to 29 with any digit in the second place, or below ten in one ASCII digit or in a
  blank and one ASCII digit.
\<close>

definition digit_chars :: "env \<Rightarrow> nat \<Rightarrow> nat list" where
  "digit_chars ev v = filter (\<lambda>c. digit_val ev c = int v) (map (\<lambda>z. z + v) (digit_zeros ev))"

definition year_texts :: "env \<Rightarrow> nat \<Rightarrow> str list" where
  "year_texts ev y =
     concat (map (\<lambda>a. concat (map (\<lambda>b. concat (map (\<lambda>c. map (\<lambda>e. [a, b, c, e])
       (digit_chars ev (y mod 10)))
       (digit_chars ev (y div 10 mod 10))))
       (digit_chars ev (y div 100 mod 10))))
       (digit_chars ev (y div 1000)))"

definition month_texts :: "int \<Rightarrow> str list" where
  "month_texts m = fmt_d 2 m # (if m < 10 then [fmt_d 1 m] else [])"

definition day_texts :: "env \<Rightarrow> int \<Rightarrow> str list" where
  "day_texts ev d =
     (if 10 \<le> d \<and> d \<le> 29
      then map (\<lambda>c. [digit_char (nat d div 10), c]) (digit_chars ev (nat d mod 10))
      else [fmt_d 2 d])
     @ (if d < 10 then [fmt_d 1 d, ch CHR '' '' # fmt_d 1 d] else [])"

definition accepted_texts :: "env \<Rightarrow> date \<Rightarrow> str list" where
  "accepted_texts ev dt =
     concat (map (\<lambda>Y. concat (map (\<lambda>m. map (\<lambda>d. Y @ u ''-'' @ m @ u ''-'' @ d)
       (day_texts ev (day dt)))
       (month_texts (month dt))))
       (year_texts ev (nat (year dt))))"

text \<open>
  An environment for the examples: a database with the Arabic-Indic digits (from U+0660)
  and the full-width digits (from U+FF10) beside the ASCII ones, the codec UTF-8, which
  refuses the surrogates and gives back every other character, and \<^verbatim>\<open>/tmp\<close> with one
  candidate name.
\<close>

definition sample_env :: env where
  "sample_env =
     \<lparr>zeros = [0x660, 0xFF10],
      codec = (\<lambda>c. if c < 0xD800 \<or> (0xDFFF < c \<and> c < 0x110000) then Some c else None),
      tempdir = u ''/tmp'',
      names = [u ''abc'']\<rparr>"

section \<open>Writing the entries: \<^verbatim>\<open>csv.DictWriter\<close> with the dialect \<^verbatim>\<open>unix\<close>\<close>

abbreviation (input) LF :: nat where "LF \<equiv> 10"
abbreviation (input) CR :: nat where "CR \<equiv> 13"
abbreviation (input) quotechar :: nat where "quotechar \<equiv> 34"
abbreviation (input) delimiter :: nat where "delimiter \<equiv> 44"

text \<open>A value of the dictionary of \<^verbatim>\<open>to_dict\<close>: a date, a string or \<^verbatim>\<open>None\<close>.\<close>

datatype cell = VDate date | VStr str | VNone

definition to_dict :: "DayEntry \<Rightarrow> (str \<times> cell) list" where
  "to_dict e =
     [(u ''date'', VDate (edate e)),
      (u ''mood'', VStr (name (mood e))),
      (u ''comment'', case comment e of None \<Rightarrow> VNone | Some c \<Rightarrow> VStr c)]"

definition fieldnames :: "str list" where
  "fieldnames = [u ''date'', u ''mood'', u ''comment'']"

text \<open>
  \<^verbatim>\<open>DictWriter._dict_to_list\<close>: a key outside the field names raises \<^verbatim>\<open>ValueError\<close>;
  the row holds, for each field name, the value of the dictionary, or the empty string.
\<close>

definition dict_to_list :: "(str \<times> cell) list \<Rightarrow> error + cell list" where
  "dict_to_list d =
     (if list_ex (\<lambda>k. k \<notin> set fieldnames) (map fst d) then Inl ValueError
      else Inr (map (\<lambda>k. case map_of d k of None \<Rightarrow> VStr [] | Some v \<Rightarrow> v) fieldnames))"

text \<open>The writer turns \<^verbatim>\<open>None\<close> into the empty text and any other value into its \<^verbatim>\<open>str\<close>.\<close>

definition cell_str :: "cell \<Rightarrow> str" where
  "cell_str v = (case v of VDate d \<Rightarrow> isoformat d | VStr s \<Rightarrow> s | VNone \<Rightarrow> [])"

text \<open>
  The dialect \<^verbatim>\<open>unix\<close> quotes every field (\<^verbatim>\<open>QUOTE_ALL\<close>), doubles a quote character
  inside a field, separates fields by a comma and ends the row by a line feed.
\<close>

fun double_quotes :: "str \<Rightarrow> str" where
  "double_quotes [] = []"
| "double_quotes (c # cs) = (if c = quotechar then [c, c] else [c]) @ double_quotes cs"

definition quoted :: "str \<Rightarrow> str" where
  "quoted s = quotechar # double_quotes s @ [quotechar]"

fun join_fields :: "str list \<Rightarrow> str" where
  "join_fields [] = []"
| "join_fields [f] = f"
| "join_fields (f # g # fs) = f @ delimiter # join_fields (g # fs)"

definition writerow :: "str list \<Rightarrow> str" where
  "writerow fs = join_fields (map quoted fs) @ [LF]"

text \<open>
  \<^verbatim>\<open>writer.writeheader()\<close> and \<^verbatim>\<open>writer.writerow(d.to_dict())\<close>: the text that the writer
  hands to the \<^verbatim>\<open>write\<close> method of the file, in one call.
\<close>

definition header_text :: str where
  "header_text = writerow fieldnames"

definition row_text :: "DayEntry \<Rightarrow> error + str" where
  "row_text e =
     (case dict_to_list (to_dict e) of
        Inl er \<Rightarrow> Inl er
      | Inr vs \<Rightarrow> Inr (writerow (map cell_str vs)))"

text \<open>
  The \<^verbatim>\<open>write\<close> method of a text file encodes its argument with the codec of the locale
  (the file is opened without \<^verbatim>\<open>encoding\<close> and \<^verbatim>\<open>errors\<close>): a character that the encoder
  refuses raises \<^verbatim>\<open>UnicodeEncodeError\<close> and nothing of the argument is written.  A file
  is given by the text that the decoder of the same locale reads from it, so what is added
  to the file is the text as the codec gives it back.
\<close>

definition encode_write :: "env \<Rightarrow> str \<Rightarrow> error + str" where
  "encode_write ev t =
     (if list_ex (\<lambda>c. codec ev c = None) t then Inl UnicodeEncodeError
      else Inr (map (\<lambda>c. case codec ev c of None \<Rightarrow> c | Some c' \<Rightarrow> c') t))"

text \<open>
  The text in the file after the header and the rows of a sequence of entries have been
  written, or the first exception of a row.
\<close>

fun rows_text :: "env \<Rightarrow> DayEntry list \<Rightarrow> error + str" where
  "rows_text ev [] = Inr []"
| "rows_text ev (e # es) =
     (case row_text e of
        Inl er \<Rightarrow> Inl er
      | Inr t \<Rightarrow>
          (case encode_write ev t of
             Inl er \<Rightarrow> Inl er
           | Inr t' \<Rightarrow> (case rows_text ev es of Inl er \<Rightarrow> Inl er | Inr ts \<Rightarrow> Inr (t' @ ts))))"

definition csv_text :: "env \<Rightarrow> DayEntry list \<Rightarrow> error + str" where
  "csv_text ev days =
     (case encode_write ev header_text of
        Inl er \<Rightarrow> Inl er
      | Inr ht \<Rightarrow> (case rows_text ev days of Inl er \<Rightarrow> Inl er | Inr ts \<Rightarrow> Inr (ht @ ts)))"

section \<open>Reading the entries: \<^verbatim>\<open>csv.DictReader\<close> with the default dialect\<close>

text \<open>
  A file opened with \<^verbatim>\<open>newline=''\<close> yields its lines with their ends: a line ends
  after a line feed, after a carriage return that no line feed follows, and at the end
  of the text.  Every other character belongs to the line of the character after it.
\<close>

definition ends_line :: "nat \<Rightarrow> str \<Rightarrow> bool" where
  "ends_line c cs = (c = LF \<or> (c = CR \<and> take 1 cs \<noteq> [LF]))"

fun file_lines :: "str \<Rightarrow> str list" where
  "file_lines [] = []"
| "file_lines (c # cs) =
     (if ends_line c cs then [c] # file_lines cs
      else (case file_lines cs of [] \<Rightarrow> [c] # [] | l # ls \<Rightarrow> (c # l) # ls))"

text \<open>
  The parser of the \<^verbatim>\<open>_csv\<close> module.  The default dialect has the comma as delimiter,
  the double quote as quote character, doubled quotes, no escape character, no skipping
  of blanks and is not strict; the states that only an escape character reaches are left
  out.  A field longer than \<open>field_limit\<close> characters raises \<^verbatim>\<open>csv.Error\<close>; the limit
  is the default of \<^verbatim>\<open>csv.field_size_limit()\<close>.
\<close>

datatype pstate =
  START_RECORD | START_FIELD | IN_FIELD | IN_QUOTED_FIELD | QUOTE_IN_QUOTED_FIELD | EAT_CRNL

text \<open>The fields of the record read so far are \<open>rfields\<close> (\<^verbatim>\<open>fields\<close> in the module).\<close>

record reader =
  state :: pstate
  field :: str
  rfields :: "str list"

datatype token = Chr nat | EOL

definition field_limit :: nat where
  "field_limit = 131072"

definition parse_reset :: reader where
  "parse_reset = \<lparr>state = START_RECORD, field = [], rfields = []\<rparr>"

definition parse_add_char :: "reader \<Rightarrow> nat \<Rightarrow> error + reader" where
  "parse_add_char r c =
     (if field_limit \<le> length (field r) then Inl CsvError
      else Inr (r\<lparr>field := field r @ [c]\<rparr>))"

definition parse_save_field :: "reader \<Rightarrow> reader" where
  "parse_save_field r = r\<lparr>rfields := rfields r @ [field r], field := []\<rparr>"

definition start_field :: "reader \<Rightarrow> token \<Rightarrow> error + reader" where
  "start_field r t =
     (case t of
        EOL \<Rightarrow> Inr ((parse_save_field r)\<lparr>state := START_RECORD\<rparr>)
      | Chr c \<Rightarrow>
          if c = LF \<or> c = CR then Inr ((parse_save_field r)\<lparr>state := EAT_CRNL\<rparr>)
          else if c = quotechar then Inr (r\<lparr>state := IN_QUOTED_FIELD\<rparr>)
          else if c = delimiter then Inr (parse_save_field r)
          else (case parse_add_char r c of
                  Inl e \<Rightarrow> Inl e
                | Inr r' \<Rightarrow> Inr (r'\<lparr>state := IN_FIELD\<rparr>)))"

definition parse_process_char :: "reader \<Rightarrow> token \<Rightarrow> error + reader" where
  "parse_process_char r t =
     (case state r of
        START_RECORD \<Rightarrow>
          (case t of
             EOL \<Rightarrow> Inr r
           | Chr c \<Rightarrow>
               if c = LF \<or> c = CR then Inr (r\<lparr>state := EAT_CRNL\<rparr>)
               else start_field (r\<lparr>state := START_FIELD\<rparr>) t)
      | START_FIELD \<Rightarrow> start_field r t
      | IN_FIELD \<Rightarrow>
          (case t of
             EOL \<Rightarrow> Inr ((parse_save_field r)\<lparr>state := START_RECORD\<rparr>)
           | Chr c \<Rightarrow>
               if c = LF \<or> c = CR then Inr ((parse_save_field r)\<lparr>state := EAT_CRNL\<rparr>)
               else if c = delimiter then Inr ((parse_save_field r)\<lparr>state := START_FIELD\<rparr>)
               else parse_add_char r c)
      | IN_QUOTED_FIELD \<Rightarrow>
          (case t of
             EOL \<Rightarrow> Inr r
           | Chr c \<Rightarrow>
               if c = quotechar then Inr (r\<lparr>state := QUOTE_IN_QUOTED_FIELD\<rparr>)
               else parse_add_char r c)
      | QUOTE_IN_QUOTED_FIELD \<Rightarrow>
          (case t of
             EOL \<Rightarrow> Inr ((parse_save_field r)\<lparr>state := START_RECORD\<rparr>)
           | Chr c \<Rightarrow>
               if c = quotechar then
                 (case parse_add_char r c of
                    Inl e \<Rightarrow> Inl e
                  | Inr r' \<Rightarrow> Inr (r'\<lparr>state := IN_QUOTED_FIELD\<rparr>))
               else if c = delimiter then Inr ((parse_save_field r)\<lparr>state := START_FIELD\<rparr>)
               else if c = LF \<or> c = CR then Inr ((parse_save_field r)\<lparr>state := EAT_CRNL\<rparr>)
               else (case parse_add_char r c of
                       Inl e \<Rightarrow> Inl e
                     | Inr r' \<Rightarrow> Inr (r'\<lparr>state := IN_FIELD\<rparr>)))
      | EAT_CRNL \<Rightarrow>
          (case t of
             EOL \<Rightarrow> Inr (r\<lparr>state := START_RECORD\<rparr>)
           | Chr c \<Rightarrow> if c = LF \<or> c = CR then Inr r else Inl CsvError))"

text \<open>The characters of one line, in order.\<close>

fun feed :: "reader \<Rightarrow> str \<Rightarrow> error + reader" where
  "feed r [] = Inr r"
| "feed r (c # cs) =
     (case parse_process_char r (Chr c) of Inl e \<Rightarrow> Inl e | Inr r' \<Rightarrow> feed r' cs)"

text \<open>
  The records that iterating the reader yields, and the error that ends the iteration if
  there is one.  A record is complete when the parser is back in \<open>START_RECORD\<close> after
  the end of a line; the parser is then reset.  At the end of the lines a field under
  construction, or an open quoted field, is saved as the last record.
\<close>

fun reader_lines :: "reader \<Rightarrow> str list \<Rightarrow> str list list \<times> error option" where
  "reader_lines r [] =
     (if field r \<noteq> [] \<or> state r = IN_QUOTED_FIELD
      then ([rfields (parse_save_field r)], None) else ([], None))"
| "reader_lines r (l # ls) =
     (case feed r l of
        Inl e \<Rightarrow> ([], Some e)
      | Inr r1 \<Rightarrow>
          (case parse_process_char r1 EOL of
             Inl e \<Rightarrow> ([], Some e)
           | Inr r2 \<Rightarrow>
               if state r2 = START_RECORD
               then (case reader_lines parse_reset ls of (rows, err) \<Rightarrow> (rfields r2 # rows, err))
               else reader_lines r2 ls))"

declare file_lines.simps [simp del] reader_lines.simps [simp del]

text \<open>
  A row of \<^verbatim>\<open>DictReader\<close>: the names of the header (\<open>keys\<close>) paired with the fields;
  a name without a field gets \<^verbatim>\<open>None\<close>.  Fields beyond the names go under the key \<^verbatim>\<open>None\<close>,
  which the program never reads.
\<close>

type_synonym row = "str \<rightharpoonup> str option"

definition row_dict :: "str list \<Rightarrow> str list \<Rightarrow> row" where
  "row_dict keys r =
     fold (\<lambda>k d. d(k \<mapsto> None)) (drop (length r) keys)
       (fold (\<lambda>(k, v) d. d(k \<mapsto> Some v)) (zip keys r) Map.empty)"

text \<open>
  The rows of the reader: the first record is the header, empty records after it are
  skipped.
\<close>

definition dict_reader :: "str list \<Rightarrow> row list \<times> error option" where
  "dict_reader ls =
     (case reader_lines parse_reset ls of
        ([], err) \<Rightarrow> ([], err)
      | (keys # recs, err) \<Rightarrow> (map (row_dict keys) (filter (\<lambda>r. r \<noteq> []) recs), err))"

text \<open>
  \<^verbatim>\<open>DayEntry(date_from_iso(row['date']), DayMood[row['mood']], row['comment'])\<close>, the
  arguments from left to right.  A missing key raises \<^verbatim>\<open>KeyError\<close>, the date of
  \<^verbatim>\<open>None\<close> raises \<^verbatim>\<open>TypeError\<close>.
\<close>

definition entry_of_row :: "env \<Rightarrow> row \<Rightarrow> error + DayEntry" where
  "entry_of_row ev r =
     (case r (u ''date'') of
        None \<Rightarrow> Inl KeyError
      | Some v \<Rightarrow>
          (case (case v of None \<Rightarrow> Inl TypeError | Some s \<Rightarrow> date_from_iso ev s) of
             Inl e \<Rightarrow> Inl e
           | Inr d \<Rightarrow>
               (case r (u ''mood'') of
                  None \<Rightarrow> Inl KeyError
                | Some v' \<Rightarrow>
                    (case (case v' of None \<Rightarrow> Inl KeyError | Some s \<Rightarrow> DayMood_getitem s) of
                       Inl e \<Rightarrow> Inl e
                     | Inr m \<Rightarrow>
                         (case r (u ''comment'') of
                            None \<Rightarrow> Inl KeyError
                          | Some c \<Rightarrow> Inr \<lparr>edate = d, mood = m, comment = c\<rparr>)))))"

text \<open>
  The list comprehension of \<^verbatim>\<open>read_days_from_file\<close>: the first row that raises ends
  it, and an error of the reader comes after the rows read before it.
\<close>

fun entries_of_rows :: "env \<Rightarrow> row list \<Rightarrow> error option \<Rightarrow> error + DayEntry list" where
  "entries_of_rows ev [] err = (case err of None \<Rightarrow> Inr [] | Some e \<Rightarrow> Inl e)"
| "entries_of_rows ev (r # rs) err =
     (case entry_of_row ev r of
        Inl e \<Rightarrow> Inl e
      | Inr x \<Rightarrow> (case entries_of_rows ev rs err of Inl e \<Rightarrow> Inl e | Inr xs \<Rightarrow> Inr (x # xs)))"

definition parse_days :: "env \<Rightarrow> str \<Rightarrow> error + DayEntry list" where
  "parse_days ev text =
     (case dict_reader (file_lines text) of (rows, err) \<Rightarrow> entries_of_rows ev rows err)"

text \<open>
  The files: a path is a directory and a name in it, a file system maps the paths of the
  files that exist to their text.  \<^verbatim>\<open>read_days_from_file\<close> opens the file, which raises
  \<^verbatim>\<open>FileNotFoundError\<close> when there is none; the \<^verbatim>\<open>return None\<close> after the \<^verbatim>\<open>with\<close> block
  is never reached.
\<close>

type_synonym path = "str \<times> str"
type_synonym filesystem = "path \<rightharpoonup> str"

definition read_days_from_file :: "env \<Rightarrow> filesystem \<Rightarrow> path \<Rightarrow> error + DayEntry list" where
  "read_days_from_file ev fs file =
     (case fs file of None \<Rightarrow> Inl FileNotFoundError | Some text \<Rightarrow> parse_days ev text)"

text \<open>The three texts that the writer gets for an entry.\<close>

definition row_of :: "DayEntry \<Rightarrow> str list" where
  "row_of e =
     [isoformat (edate e), name (mood e), (case comment e of None \<Rightarrow> [] | Some c \<Rightarrow> c)]"

text \<open>
  Writing a sequence of entries through the codec (lines 208 to 214) and reading the
  text of the file back (lines 116 to 123).
\<close>

definition roundtrip :: "env \<Rightarrow> DayEntry list \<Rightarrow> error + DayEntry list" where
  "roundtrip ev days =
     (case csv_text ev days of Inl e \<Rightarrow> Inl e | Inr text \<Rightarrow> parse_days ev text)"

section \<open>The commands\<close>

text \<open>
  \<^verbatim>\<open>render\<close> (lines 187 to 190): the entries are read, and the chart is shown when the
  list is not empty.  The result is the matrix shown, or \<open>None\<close> when nothing is shown.
\<close>

definition render_cmd :: "env \<Rightarrow> filesystem \<Rightarrow> path \<Rightarrow> error + color list list option" where
  "render_cmd ev fs file =
     (case read_days_from_file ev fs file of
        Inl e \<Rightarrow> Inl e
      | Inr days \<Rightarrow>
          if days \<noteq> [] then (case display_year days of Inl e \<Rightarrow> Inl e | Inr X \<Rightarrow> Inr (Some X))
          else Inr None)"

text \<open>
  \<^verbatim>\<open>tempfile.NamedTemporaryFile\<close> is called without a directory, so the file is made in
  the directory that \<^verbatim>\<open>tempfile.gettempdir()\<close> returns, under the first of the candidate
  names that no file has yet; the call fails when every candidate is taken.  Both are given
  by the environment.
\<close>

fun mkstemp :: "str \<Rightarrow> str list \<Rightarrow> filesystem \<Rightarrow> error + path" where
  "mkstemp dir [] fs = Inl FileExistsError"
| "mkstemp dir (nm # nms) fs =
     (if fs (dir, u ''tmp'' @ nm) = None then Inr (dir, u ''tmp'' @ nm) else mkstemp dir nms fs)"

definition append_text :: "filesystem \<Rightarrow> path \<Rightarrow> str \<Rightarrow> filesystem" where
  "append_text fs p t = fs(p \<mapsto> (case fs p of None \<Rightarrow> [] | Some old \<Rightarrow> old) @ t)"

text \<open>
  The loop of lines 212 and 213.  Each row is made, encoded and written, in this order.
  A failure of the device is simulated by \<open>fault\<close>: \<open>Some k\<close> makes the write number \<open>k\<close>
  raise \<^verbatim>\<open>OSError\<close>, counted from the header, which is write 0; \<open>None\<close> lets every
  write succeed.
\<close>

fun write_rows ::
  "env \<Rightarrow> filesystem \<Rightarrow> path \<Rightarrow> DayEntry list \<Rightarrow> nat option \<Rightarrow> error option \<times> filesystem" where
  "write_rows ev fs p [] fault = (None, fs)"
| "write_rows ev fs p (d # ds) fault =
     (case row_text d of
        Inl e \<Rightarrow> (Some e, fs)
      | Inr t \<Rightarrow>
          (case encode_write ev t of
             Inl e \<Rightarrow> (Some e, fs)
           | Inr t' \<Rightarrow>
               if fault = Some 0 then (Some OSError, fs)
               else write_rows ev (append_text fs p t') p ds (map_option (\<lambda>n. n - 1) fault)))"

text \<open>
  The \<^verbatim>\<open>with\<close> block of lines 208 to 214 for the temporary file \<open>tmp\<close>, which is new and
  empty: the header, then the rows.  An exception leaves the block, and the temporary
  file stays as it is, since it was made with \<^verbatim>\<open>delete=False\<close>.  Printing the name of
  the file (line 214) is taken to succeed.
\<close>

definition write_temp ::
  "env \<Rightarrow> filesystem \<Rightarrow> path \<Rightarrow> DayEntry list \<Rightarrow> nat option \<Rightarrow> error option \<times> filesystem" where
  "write_temp ev fs tmp days fault =
     (case encode_write ev header_text of
        Inl e \<Rightarrow> (Some e, fs(tmp \<mapsto> []))
      | Inr ht \<Rightarrow>
          if fault = Some 0 then (Some OSError, fs(tmp \<mapsto> []))
          else write_rows ev (append_text (fs(tmp \<mapsto> [])) tmp ht) tmp days
                 (map_option (\<lambda>n. n - 1) fault))"

text \<open>
  \<^verbatim>\<open>shutil.move(src, dst)\<close> for a source that is a file and a destination that is no
  directory.  It calls \<^verbatim>\<open>os.rename(src, dst)\<close>, which replaces the destination in one
  step.  When that raises \<^verbatim>\<open>OSError\<close>, as it does when the two paths are on different
  file systems or the directory of the destination does not exist, it calls
  \<^verbatim>\<open>copy2(src, dst)\<close> and then \<^verbatim>\<open>os.unlink(src)\<close>; \<^verbatim>\<open>copy2\<close> opens the destination for
  writing, which empties it, copies the data and then the metadata.  What the system does
  is given by a value of \<open>os_move\<close>: the rename succeeds; or it fails and then the copy
  and the removal succeed, or the destination cannot be opened, which raises the given
  exception (\<^verbatim>\<open>FileNotFoundError\<close> when its directory does not exist), or the copy fails
  after some characters, or copying the metadata fails, or removing the source fails.
\<close>

datatype os_move =
  Rename_ok | Copy_ok | Open_fails error | Copy_fails nat | Copystat_fails | Unlink_fails

definition move ::
  "filesystem \<Rightarrow> path \<Rightarrow> path \<Rightarrow> os_move \<Rightarrow> error option \<times> filesystem" where
  "move fs src dst mv =
     (case fs src of
        None \<Rightarrow> (Some FileNotFoundError, fs)
      | Some t \<Rightarrow>
          (case mv of
             Rename_ok \<Rightarrow> (None, (fs(src := None))(dst \<mapsto> t))
           | Copy_ok \<Rightarrow> (None, (fs(dst \<mapsto> t))(src := None))
           | Open_fails e \<Rightarrow> (Some e, fs)
           | Copy_fails n \<Rightarrow> (Some OSError, fs(dst \<mapsto> take n t))
           | Copystat_fails \<Rightarrow> (Some OSError, fs(dst \<mapsto> t))
           | Unlink_fails \<Rightarrow> (Some OSError, fs(dst \<mapsto> t))))"

text \<open>
  Lines 208 to 218.  An exception inside the \<^verbatim>\<open>with\<close> block leaves the block, so the
  move after it is not run.
\<close>

definition save ::
  "env \<Rightarrow> filesystem \<Rightarrow> path \<Rightarrow> DayEntry list \<Rightarrow> nat option \<Rightarrow> os_move
     \<Rightarrow> error option \<times> filesystem" where
  "save ev fs file days fault mv =
     (case mkstemp (tempdir ev) (names ev) fs of
        Inl e \<Rightarrow> (Some e, fs)
      | Inr tmp \<Rightarrow>
          (case write_temp ev fs tmp days fault of
             (Some e, fs2) \<Rightarrow> (Some e, fs2)
           | (None, fs2) \<Rightarrow> move fs2 tmp file mv))"

text \<open>
  \<^verbatim>\<open>log\<close> (lines 192 to 218) for the entry that \<^verbatim>\<open>enter_daily_data\<close> returned: a
  missing file counts as no entries, any other error of reading ends the command.
\<close>

definition log_cmd ::
  "env \<Rightarrow> filesystem \<Rightarrow> path \<Rightarrow> DayEntry \<Rightarrow> nat option \<Rightarrow> os_move
     \<Rightarrow> error option \<times> filesystem" where
  "log_cmd ev fs file entry fault mv =
     (case read_days_from_file ev fs file of
        Inl e \<Rightarrow>
          if e = FileNotFoundError then save ev fs file (upsert [] entry) fault mv
          else (Some e, fs)
      | Inr days \<Rightarrow> save ev fs file (upsert days entry) fault mv)"

section \<open>Properties of the replacement\<close>

text \<open>
  C3.  For every sequence of entries and every entry \<open>e\<close>, the result of \<open>upsert\<close> is the
  input without the elements dated like \<open>e\<close>, the others in their original order, then
  \<open>e\<close> at the end; exactly one element of the result has the date of \<open>e\<close>.  The function
  computes a new list from its arguments and touches no file.
\<close>

theorem upsert_spec:
  "upsert E e = [d \<leftarrow> E. edate d \<noteq> edate e] @ [e]
   \<and> butlast (upsert E e) = [d \<leftarrow> E. edate d \<noteq> edate e]
   \<and> last (upsert E e) = e
   \<and> length [d \<leftarrow> upsert E e. edate d = edate e] = 1
   \<and> [d \<leftarrow> upsert E e. edate d = edate e] = [e]"
proof -
  have "[d \<leftarrow> [d \<leftarrow> E. edate d \<noteq> edate e]. edate d = edate e] = []"
    by (induction E) auto
  then show ?thesis
    by (simp add: upsert_def)
qed

text \<open>
  C8.  Replacing the entry of a day twice with the same entry gives the same sequence as
  replacing it once.
\<close>

theorem upsert_idempotent: "upsert (upsert E e) e = upsert E e"
  by (simp add: upsert_def)

section \<open>The year chart: shape and contents\<close>

lemma py_index_in: "1 \<le> i \<Longrightarrow> i \<le> int n \<Longrightarrow> py_index n (i - 1) = Inr (nat (i - 1))"
  by (simp add: py_index_def)

lemma find_snoc:
  "find P (xs @ [x]) = (case find P xs of Some y \<Rightarrow> Some y | None \<Rightarrow> if P x then Some x else None)"
  by (induction xs) auto

lemma fill_grid_cells:
  assumes "length X = 31" and "\<forall>row \<in> set X. length row = 12"
    and "\<forall>d \<in> set days. 1 \<le> day (edate d) \<and> day (edate d) \<le> 31
            \<and> 1 \<le> month (edate d) \<and> month (edate d) \<le> 12"
  shows "\<exists>Y. fill_grid X days = Inr Y \<and> length Y = 31 \<and> (\<forall>row \<in> set Y. length row = 12)
     \<and> (\<forall>r < 31. \<forall>c < 12. Y ! r ! c =
           (case find (\<lambda>d. day (edate d) - 1 = int r \<and> month (edate d) - 1 = int c) (rev days) of
              None \<Rightarrow> X ! r ! c | Some d \<Rightarrow> color (mood d)))"
  using assms
proof (induction days arbitrary: X)
  case Nil
  then show ?case by simp
next
  case (Cons d ds)
  let ?r = "nat (day (edate d) - 1)" and ?c = "nat (month (edate d) - 1)"
  let ?X' = "X[?r := (X ! ?r)[?c := color (mood d)]]"
  have rng: "1 \<le> day (edate d)" "day (edate d) \<le> 31" "1 \<le> month (edate d)" "month (edate d) \<le> 12"
    using Cons.prems(3) by auto
  have r: "?r < 31" and c: "?c < 12" using rng by auto
  have lenr: "length (X ! ?r) = 12" using Cons.prems(1,2) r by auto
  have step: "set_cell X (day (edate d) - 1) (month (edate d) - 1) (color (mood d)) = Inr ?X'"
    using rng Cons.prems(1) lenr by (simp add: set_cell_def py_index_in)
  have len': "length ?X' = 31" using Cons.prems(1) by simp
  have rows': "\<forall>row \<in> set ?X'. length row = 12"
  proof
    fix row assume "row \<in> set ?X'"
    then have "row \<in> insert ((X ! ?r)[?c := color (mood d)]) (set X)"
      using set_update_subset_insert by fastforce
    then show "length row = 12" using Cons.prems(2) lenr by auto
  qed
  have rest: "\<forall>d \<in> set ds. 1 \<le> day (edate d) \<and> day (edate d) \<le> 31
            \<and> 1 \<le> month (edate d) \<and> month (edate d) \<le> 12"
    using Cons.prems(3) by simp
  from Cons.IH[OF len' rows' rest] obtain Y where Y: "fill_grid ?X' ds = Inr Y" "length Y = 31"
    "\<forall>row \<in> set Y. length row = 12"
    "\<forall>r < 31. \<forall>c < 12. Y ! r ! c =
           (case find (\<lambda>d. day (edate d) - 1 = int r \<and> month (edate d) - 1 = int c) (rev ds) of
              None \<Rightarrow> ?X' ! r ! c | Some d \<Rightarrow> color (mood d))"
    by blast
  have cells: "Y ! r' ! c' =
           (case find (\<lambda>d. day (edate d) - 1 = int r' \<and> month (edate d) - 1 = int c') (rev (d # ds)) of
              None \<Rightarrow> X ! r' ! c' | Some d \<Rightarrow> color (mood d))" if "r' < 31" "c' < 12" for r' c'
  proof -
    have upd: "?X' ! r' ! c' = (if ?r = r' \<and> ?c = c' then color (mood d) else X ! r' ! c')"
    proof (cases "?r = r'")
      case True
      then show ?thesis using that Cons.prems(1) lenr by (simp add: nth_list_update)
    next
      case False
      then show ?thesis by simp
    qed
    have eq: "(day (edate d) - 1 = int r' \<and> month (edate d) - 1 = int c') = (?r = r' \<and> ?c = c')"
      using rng by auto
    let ?P = "\<lambda>d. day (edate d) - 1 = int r' \<and> month (edate d) - 1 = int c'"
    have Yrc: "Y ! r' ! c' = (case find ?P (rev ds) of None \<Rightarrow> ?X' ! r' ! c' | Some d \<Rightarrow> color (mood d))"
      using Y(4) that by blast
    show ?thesis
    proof (cases "find ?P (rev ds)")
      case None
      then show ?thesis using Yrc upd eq by (simp add: find_snoc)
    next
      case (Some e)
      then show ?thesis using Yrc by (simp add: find_snoc)
    qed
  qed
  show ?case
    using step Y(1,2,3) cells by simp
qed

lemma valid_date_range:
  "valid_date d \<Longrightarrow> 1 \<le> day d \<and> day d \<le> 31 \<and> 1 \<le> month d \<and> month d \<le> 12"
  by (auto simp: valid_date_def days_in_month_def split: if_splits)

lemma build_year_grid_cells:
  assumes "\<forall>d \<in> set days. 1 \<le> day (edate d) \<and> day (edate d) \<le> 31
            \<and> 1 \<le> month (edate d) \<and> month (edate d) \<le> 12"
  shows "\<exists>Y. build_year_grid days = Inr Y \<and> length Y = 31 \<and> (\<forall>row \<in> set Y. length row = 12)
     \<and> (\<forall>r < 31. \<forall>c < 12. Y ! r ! c =
           (case find (\<lambda>d. day (edate d) - 1 = int r \<and> month (edate d) - 1 = int c) (rev days) of
              None \<Rightarrow> black | Some d \<Rightarrow> color (mood d)))"
proof -
  let ?X = "replicate h (replicate w black)"
  have l: "length ?X = 31" and rows: "\<forall>row \<in> set ?X. length row = 12"
    by (simp_all add: h_def w_def)
  have init: "?X ! r ! c = black" if "r < 31" "c < 12" for r c
    using that by (simp add: h_def w_def)
  from fill_grid_cells[OF l rows assms] obtain Y where Y: "fill_grid ?X days = Inr Y"
    "length Y = 31" "\<forall>row \<in> set Y. length row = 12"
    "\<forall>r < 31. \<forall>c < 12. Y ! r ! c =
           (case find (\<lambda>d. day (edate d) - 1 = int r \<and> month (edate d) - 1 = int c) (rev days) of
              None \<Rightarrow> ?X ! r ! c | Some d \<Rightarrow> color (mood d))"
    by blast
  have "Y ! r ! c =
           (case find (\<lambda>d. day (edate d) - 1 = int r \<and> month (edate d) - 1 = int c) (rev days) of
              None \<Rightarrow> black | Some d \<Rightarrow> color (mood d))" if "r < 31" "c < 12" for r c
    using Y(4) that init[OF that] by (auto split: option.splits)
  then show ?thesis
    using Y(1,2,3) by (simp add: build_year_grid_def)
qed

text \<open>
  C6.  For every sequence of entries (each holding a date of the calendar) the matrix has
  31 rows of 12 cells; a cell holds the colour of the mood of the last entry of the
  sequence whose day of month and month, each less one, are its row and column, and black
  when there is none.  The empty sequence gives the all-black matrix, and the single entry
  2019-01-14 with mood amazing gives the all-black matrix with the colour of amazing at
  row 13, column 0.
\<close>

theorem build_year_grid_spec:
  assumes "\<forall>d \<in> set days. valid_date (edate d)"
  shows "(\<exists>X. build_year_grid days = Inr X \<and> length X = 31 \<and> (\<forall>row \<in> set X. length row = 12)
           \<and> (\<forall>r < 31. \<forall>c < 12. X ! r ! c =
                 (case find (\<lambda>d. day (edate d) - 1 = int r \<and> month (edate d) - 1 = int c)
                         (rev days) of
                    None \<Rightarrow> black | Some d \<Rightarrow> color (mood d))))
       \<and> build_year_grid [] = Inr (replicate 31 (replicate 12 black))
       \<and> build_year_grid
            [\<lparr>edate = \<lparr>year = 2019, month = 1, day = 14\<rparr>, mood = amazing, comment = cm\<rparr>]
          = Inr ((replicate 31 (replicate 12 black))[13 := (replicate 12 black)[0 := color amazing]])"
proof -
  have "\<forall>d \<in> set days. 1 \<le> day (edate d) \<and> day (edate d) \<le> 31
            \<and> 1 \<le> month (edate d) \<and> month (edate d) \<le> 12"
    using assms valid_date_range by blast
  from build_year_grid_cells[OF this] have general: "\<exists>X. build_year_grid days = Inr X \<and> length X = 31
           \<and> (\<forall>row \<in> set X. length row = 12)
           \<and> (\<forall>r < 31. \<forall>c < 12. X ! r ! c =
                 (case find (\<lambda>d. day (edate d) - 1 = int r \<and> month (edate d) - 1 = int c)
                         (rev days) of
                    None \<Rightarrow> black | Some d \<Rightarrow> color (mood d)))" .
  have empty: "build_year_grid [] = Inr (replicate 31 (replicate 12 black))"
    by (simp add: build_year_grid_def h_def w_def)
  have one: "build_year_grid
            [\<lparr>edate = \<lparr>year = 2019, month = 1, day = 14\<rparr>, mood = amazing, comment = cm\<rparr>]
          = Inr ((replicate 31 (replicate 12 black))[13 := (replicate 12 black)[0 := color amazing]])"
    by (simp add: build_year_grid_def h_def w_def set_cell_def py_index_def)
  from general empty one show ?thesis by blast
qed

theorem build_year_grid_spec_witness:
  "valid_date \<lparr>year = 2019, month = 1, day = 14\<rparr>
   \<and> (\<exists>X. build_year_grid
            [\<lparr>edate = \<lparr>year = 2019, month = 1, day = 14\<rparr>, mood = amazing, comment = Some (u ''great day!'')\<rparr>,
             \<lparr>edate = \<lparr>year = 2019, month = 1, day = 14\<rparr>, mood = sad, comment = Some []\<rparr>] = Inr X
          \<and> length X = 31 \<and> list_all (\<lambda>row. length row = 12) X
          \<and> X ! 13 ! 0 = navy \<and> X ! 0 ! 0 = black)"
proof -
  let ?days = "[\<lparr>edate = \<lparr>year = 2019, month = 1, day = 14\<rparr>, mood = amazing, comment = Some (u ''great day!'')\<rparr>,
               \<lparr>edate = \<lparr>year = 2019, month = 1, day = 14\<rparr>, mood = sad, comment = Some []\<rparr>]"
  have v1: "valid_date \<lparr>year = 2019, month = 1, day = 14\<rparr>"
    by (simp add: valid_date_def days_in_month_def)
  then have v: "\<forall>d \<in> set ?days. valid_date (edate d)"
    by simp
  from build_year_grid_spec[OF v] obtain X where X: "build_year_grid ?days = Inr X" "length X = 31"
    "\<forall>row \<in> set X. length row = 12"
    "\<forall>r < 31. \<forall>c < 12. X ! r ! c =
        (case find (\<lambda>d. day (edate d) - 1 = int r \<and> month (edate d) - 1 = int c) (rev ?days) of
           None \<Rightarrow> black | Some d \<Rightarrow> color (mood d))"
    by blast
  from X(4) have "X ! 13 ! 0 = navy" "X ! 0 ! 0 = black"
    by simp_all
  moreover from X(3) have "list_all (\<lambda>row. length row = 12) X"
    by (simp add: list_all_iff)
  ultimately show ?thesis using v1 X(1,2) by blast
qed

section \<open>Dates as text: the accepted texts\<close>

lemma find_SomeD: "find P xs = Some x \<Longrightarrow> P x \<and> x \<in> set xs"
  by (induction xs) (auto split: if_splits)

lemma digit_run_ascii: "n < 10 \<Longrightarrow> digit_run ev (48 + n) = Some 48"
  by (simp add: digit_run_def digit_zeros_def)

lemma is_digit_ascii: "n < 10 \<Longrightarrow> is_digit ev (48 + n)"
  by (simp add: is_digit_def digit_run_ascii)

lemma digit_val_ascii: "n < 10 \<Longrightarrow> digit_val ev (48 + n) = int n"
  by (simp add: digit_val_def digit_run_ascii)

lemma digit_val_simps:
  "digit_val ev 48 = 0" "digit_val ev 49 = 1" "digit_val ev 50 = 2" "digit_val ev 51 = 3"
  "digit_val ev 52 = 4" "digit_val ev 53 = 5" "digit_val ev 54 = 6" "digit_val ev 55 = 7"
  "digit_val ev 56 = 8" "digit_val ev 57 = 9"
  using digit_val_ascii[of 0 ev] digit_val_ascii[of 1 ev] digit_val_ascii[of 2 ev]
    digit_val_ascii[of 3 ev] digit_val_ascii[of 4 ev] digit_val_ascii[of 5 ev]
    digit_val_ascii[of 6 ev] digit_val_ascii[of 7 ev] digit_val_ascii[of 8 ev]
    digit_val_ascii[of 9 ev]
  by simp_all

lemma is_digit_simps:
  "is_digit ev 48" "is_digit ev 49" "is_digit ev 50" "is_digit ev 51" "is_digit ev 52"
  "is_digit ev 53" "is_digit ev 54" "is_digit ev 55" "is_digit ev 56" "is_digit ev 57"
  using is_digit_ascii[of 0 ev] is_digit_ascii[of 1 ev] is_digit_ascii[of 2 ev]
    is_digit_ascii[of 3 ev] is_digit_ascii[of 4 ev] is_digit_ascii[of 5 ev]
    is_digit_ascii[of 6 ev] is_digit_ascii[of 7 ev] is_digit_ascii[of 8 ev]
    is_digit_ascii[of 9 ev]
  by simp_all

lemma digit_run_SomeD:
  "digit_run ev c = Some z \<Longrightarrow> z \<in> set (digit_zeros ev) \<and> z \<le> c \<and> c < z + 10"
  using find_SomeD[of "\<lambda>z. z \<le> c \<and> c < z + 10" "digit_zeros ev" z]
  by (simp add: digit_run_def)

lemma digit_val_bounds: "0 \<le> digit_val ev c \<and> digit_val ev c < 10"
proof (cases "digit_run ev c")
  case None
  then show ?thesis by (simp add: digit_val_def)
next
  case (Some z)
  from digit_run_SomeD[OF Some] show ?thesis by (simp add: digit_val_def Some)
qed

lemma is_digit_low: "is_digit ev c \<Longrightarrow> 48 \<le> c"
proof -
  assume "is_digit ev c"
  then obtain z where z: "digit_run ev c = Some z" by (auto simp: is_digit_def)
  from digit_run_SomeD[OF z] have "z \<in> set (digit_zeros ev)" "z \<le> c" by simp_all
  then show ?thesis by (auto simp: digit_zeros_def)
qed

lemma digit_not_blank: "is_digit ev c \<Longrightarrow> c \<noteq> ch CHR '' ''"
  using is_digit_low[of ev c] by auto

lemma in_digit_chars:
  assumes "v < 10"
  shows "c \<in> set (digit_chars ev v) \<longleftrightarrow> is_digit ev c \<and> digit_val ev c = int v"
proof
  assume "c \<in> set (digit_chars ev v)"
  then obtain z where z: "z \<in> set (digit_zeros ev)" "c = z + v" and val: "digit_val ev c = int v"
    by (auto simp: digit_chars_def)
  have "z \<le> c \<and> c < z + 10" using z(2) assms by simp
  then have "digit_run ev c \<noteq> None"
    using z(1) by (auto simp: digit_run_def find_None_iff)
  then show "is_digit ev c \<and> digit_val ev c = int v"
    using val by (simp add: is_digit_def)
next
  assume a: "is_digit ev c \<and> digit_val ev c = int v"
  then obtain z where z: "digit_run ev c = Some z" by (auto simp: is_digit_def)
  from digit_run_SomeD[OF z] have zs: "z \<in> set (digit_zeros ev)" "z \<le> c" by simp_all
  have "int (c - z) = int v" using a z by (simp add: digit_val_def)
  then have "c = z + v" using zs(2) by simp
  then show "c \<in> set (digit_chars ev v)"
    using zs(1) a by (auto simp: digit_chars_def)
qed

lemma dec_small: "n < 10 \<Longrightarrow> dec n = [digit_char n]"
  by (subst dec.simps) simp

lemma dec_big: "10 \<le> n \<Longrightarrow> dec n = dec (n div 10) @ [digit_char (n mod 10)]"
  by (subst dec.simps) simp

lemma zfill_dec_step:
  assumes "0 < k"
  shows "zfill (Suc k) (dec n) = zfill k (dec (n div 10)) @ [digit_char (n mod 10)]"
proof (cases "n < 10")
  case True
  have "replicate (k - Suc 0) (48::nat) @ [48] = replicate k 48"
    using assms by (cases k) (simp_all add: replicate_append_same)
  then show ?thesis
    using True by (simp add: dec_small zfill_def digit_char_def)
next
  case False
  then show ?thesis
    by (simp add: dec_big zfill_def)
qed

lemma zfill_one_dec: "n < 10 \<Longrightarrow> zfill (Suc 0) (dec n) = [digit_char n]"
  by (simp add: dec_small zfill_def)

lemma fmt_d_4:
  assumes "0 \<le> y" and "y \<le> 9999"
  shows "fmt_d 4 y = [digit_char (nat y div 1000), digit_char (nat y div 100 mod 10),
                      digit_char (nat y div 10 mod 10), digit_char (nat y mod 10)]"
proof -
  let ?n = "nat y"
  have small: "?n div 10 div 10 div 10 < 10" using assms by (simp add: div_mult2_eq[symmetric])
  have four: "(4::nat) = Suc (Suc (Suc (Suc 0)))" by simp
  have "zfill 4 (dec ?n)
        = [digit_char (?n div 10 div 10 div 10), digit_char (?n div 10 div 10 mod 10),
           digit_char (?n div 10 mod 10), digit_char (?n mod 10)]"
    unfolding four by (simp add: zfill_dec_step zfill_one_dec[OF small])
  then have "zfill 4 (dec ?n)
        = [digit_char (?n div 1000), digit_char (?n div 100 mod 10),
           digit_char (?n div 10 mod 10), digit_char (?n mod 10)]"
  proof -
    have "?n div 10 div 10 = ?n div 100" "?n div 10 div 10 div 10 = ?n div 1000"
      by (simp_all add: div_mult2_eq[symmetric])
    then show ?thesis using \<open>zfill 4 (dec ?n) = _\<close> by simp
  qed
  then show ?thesis
    using assms by (simp add: fmt_d_def)
qed

lemma fmt_d_2:
  assumes "0 \<le> m" and "m \<le> 99"
  shows "fmt_d 2 m = [digit_char (nat m div 10), digit_char (nat m mod 10)]"
proof -
  let ?n = "nat m"
  have small: "?n div 10 < 10" using assms by simp
  have two: "(2::nat) = Suc (Suc 0)" by simp
  have "zfill 2 (dec ?n) = [digit_char (?n div 10), digit_char (?n mod 10)]"
    unfolding two by (simp add: zfill_dec_step zfill_one_dec[OF small])
  then show ?thesis
    using assms by (simp add: fmt_d_def)
qed

lemma fmt_d_1: "0 \<le> m \<Longrightarrow> m \<le> 9 \<Longrightarrow> fmt_d 1 m = [digit_char (nat m)]"
  using zfill_one_dec[of "nat m"] by (simp add: fmt_d_def)

lemma rx_chr_simps:
  "rx_chr P [] = []" "rx_chr P (c # r) = (if P c then [([c], r)] else [])"
  by (simp_all add: rx_chr_def)

lemma py_int_4:
  assumes "is_digit ev a"
  shows "py_int ev [a, b, c, e]
         = 1000 * digit_val ev a + 100 * digit_val ev b + 10 * digit_val ev c + digit_val ev e"
  using digit_not_blank[OF assms] by (simp add: py_int_def)

lemma py_int_2:
  "is_digit ev a \<Longrightarrow> py_int ev [a, b] = 10 * digit_val ev a + digit_val ev b"
  using digit_not_blank[of ev a] by (simp add: py_int_def)

lemma py_int_1: "is_digit ev a \<Longrightarrow> py_int ev [a] = digit_val ev a"
  using digit_not_blank[of ev a] by (simp add: py_int_def)

lemma py_int_blank: "is_digit ev a \<Longrightarrow> py_int ev [ch CHR '' '', a] = digit_val ev a"
  using digit_not_blank[of ev a] by (simp add: py_int_def)

lemma rx_Y_digits:
  assumes "is_digit ev a" "is_digit ev b" "is_digit ev c" "is_digit ev e"
  shows "rx_Y ev (a # b # c # e # r) = [([a, b, c, e], r)]"
  using assms by (simp add: rx_Y_def rx_seq_def rx_chr_simps)

lemmas rx_eval =
  rx_m_def rx_d_def rx_dash_def rx_seq_def rx_alt_def rx_chr_simps in_range_def
  match_m_def match_d_def is_digit_simps

lemmas fmt_eval = fmt_d_def zfill_def dec_small dec_big digit_char_def

lemma month_cases:
  "1 \<le> m \<Longrightarrow> m \<le> 12 \<Longrightarrow>
   m = 1 \<or> m = 2 \<or> m = 3 \<or> m = 4 \<or> m = 5 \<or> m = 6 \<or> m = 7 \<or> m = 8 \<or> m = 9 \<or> m = 10
   \<or> m = 11 \<or> m = (12::int)"
  by arith

lemma match_m_text:
  assumes "1 \<le> m" and "m \<le> 12" and "mt \<in> set (month_texts m)"
  shows "match_m ev Y (mt @ ch CHR ''-'' # t) = match_d ev Y mt t \<and> py_int ev mt = m"
  using month_cases[OF assms(1,2)] assms(3)
  by (elim disjE; simp add: month_texts_def fmt_eval; elim disjE;
      simp add: rx_eval py_int_def digit_val_simps)

lemma small_day_cases:
  "1 \<le> d \<Longrightarrow> d < 10 \<Longrightarrow>
   d = 1 \<or> d = 2 \<or> d = 3 \<or> d = 4 \<or> d = 5 \<or> d = 6 \<or> d = 7 \<or> d = 8 \<or> d = (9::int)"
  by arith

lemma match_d_small:
  assumes "1 \<le> d" and "d < 10" and "dx \<in> set (day_texts ev d)"
  shows "(\<exists>other. match_d ev Y m dx = (Y, m, dx, []) # other) \<and> py_int ev dx = d"
  using small_day_cases[OF assms(1,2)] assms(3)
  by (elim disjE; simp add: day_texts_def fmt_eval; elim disjE;
      simp add: rx_eval py_int_def digit_val_simps)

lemma match_d_thirty:
  assumes "d = 30 \<or> d = 31" and "dx \<in> set (day_texts ev d)"
  shows "(\<exists>other. match_d ev Y m dx = (Y, m, dx, []) # other) \<and> py_int ev dx = d"
  using assms
  by (elim disjE; simp add: day_texts_def fmt_eval; simp add: rx_eval py_int_def digit_val_simps)

lemma match_d_tens:
  assumes "10 \<le> d" and "d \<le> 29" and "dx \<in> set (day_texts ev d)"
  shows "(\<exists>other. match_d ev Y m dx = (Y, m, dx, []) # other) \<and> py_int ev dx = d"
proof -
  let ?n = "nat d"
  have v: "?n mod 10 < 10" by simp
  from assms obtain c where dx: "dx = [digit_char (?n div 10), c]"
    and c: "c \<in> set (digit_chars ev (?n mod 10))"
    by (auto simp: day_texts_def)
  from c have dg: "is_digit ev c" and val: "digit_val ev c = int (?n mod 10)"
    using in_digit_chars[OF v] by simp_all
  have "?n div 10 = 1 \<or> ?n div 10 = 2" using assms(1,2) by auto
  then show ?thesis
  proof
    assume t: "?n div 10 = 1"
    have "?n = ?n div 10 * 10 + ?n mod 10" by simp
    then have "?n = 10 + ?n mod 10" unfolding t by simp
    then have "d = 10 + int (?n mod 10)" using assms(1) by linarith
    then show ?thesis
      unfolding dx t using dg val
      by (simp add: rx_eval rx_d_def digit_char_def py_int_def digit_val_simps)
  next
    assume t: "?n div 10 = 2"
    have "?n = ?n div 10 * 10 + ?n mod 10" by simp
    then have "?n = 20 + ?n mod 10" unfolding t by simp
    then have "d = 20 + int (?n mod 10)" using assms(1) by linarith
    then show ?thesis
      unfolding dx t using dg val
      by (simp add: rx_eval rx_d_def digit_char_def py_int_def digit_val_simps)
  qed
qed

lemma match_d_text:
  assumes "1 \<le> d" and "d \<le> 31" and "dx \<in> set (day_texts ev d)"
  shows "(\<exists>other. match_d ev Y m dx = (Y, m, dx, []) # other) \<and> py_int ev dx = d"
proof -
  consider "d < 10" | "10 \<le> d \<and> d \<le> 29" | "d = 30 \<or> d = 31"
    using assms(1,2) by arith
  then show ?thesis
  proof cases
    case 1
    then show ?thesis using match_d_small[OF assms(1) _ assms(3)] by simp
  next
    case 2
    then show ?thesis using match_d_tens[OF _ _ assms(3)] by simp
  next
    case 3
    then show ?thesis using match_d_thirty[OF _ assms(3)] by simp
  qed
qed

lemma in_rx_chr: "(a, r) \<in> set (rx_chr P s) \<longleftrightarrow> (\<exists>c. P c \<and> a = [c] \<and> s = c # r)"
  by (cases s) (auto simp: rx_chr_def)

lemma in_rx_seq:
  "(x, r) \<in> set (rx_seq p q s)
   \<longleftrightarrow> (\<exists>a b r1. (a, r1) \<in> set (p s) \<and> (b, r) \<in> set (q r1) \<and> x = a @ b)"
proof
  assume "(x, r) \<in> set (rx_seq p q s)"
  then obtain ar where ar: "ar \<in> set (p s)"
      and "(x, r) \<in> set (map (\<lambda>(b, r'). (fst ar @ b, r')) (q (snd ar)))"
    by (auto simp: rx_seq_def case_prod_beta)
  then obtain br where br: "br \<in> set (q (snd ar))" and "(x, r) = (fst ar @ fst br, snd br)"
    by (auto simp: case_prod_beta)
  then have "(fst ar, snd ar) \<in> set (p s) \<and> (fst br, r) \<in> set (q (snd ar)) \<and> x = fst ar @ fst br"
    using ar by simp
  then show "\<exists>a b r1. (a, r1) \<in> set (p s) \<and> (b, r) \<in> set (q r1) \<and> x = a @ b"
    by blast
next
  assume "\<exists>a b r1. (a, r1) \<in> set (p s) \<and> (b, r) \<in> set (q r1) \<and> x = a @ b"
  then obtain a b r1 where h: "(a, r1) \<in> set (p s)" "(b, r) \<in> set (q r1)" "x = a @ b"
    by blast
  have "(x, r) \<in> set (map (\<lambda>(b, r'). (a @ b, r')) (q r1))"
    using h(2,3) by (simp add: image_iff) (metis case_prod_conv)
  then show "(x, r) \<in> set (rx_seq p q s)"
    using h(1) by (simp add: rx_seq_def) (metis case_prod_conv)
qed

lemma in_rx_alt: "(x, r) \<in> set (rx_alt p q s) \<longleftrightarrow> (x, r) \<in> set (p s) \<or> (x, r) \<in> set (q s)"
  by (simp add: rx_alt_def)

lemma range_digit:
  assumes "in_range lo hi c" and "48 \<le> (of_char lo :: nat)" and "(of_char hi :: nat) \<le> 57"
  shows "\<exists>n. c = digit_char n \<and> of_char lo \<le> 48 + n \<and> 48 + n \<le> (of_char hi :: nat) \<and> n < 10
           \<and> is_digit ev c \<and> digit_val ev c = int n"
proof -
  let ?n = "c - 48"
  have c: "c = 48 + ?n" and n: "?n < 10" using assms unfolding in_range_def by linarith+
  have "is_digit ev (48 + ?n)" "digit_val ev (48 + ?n) = int ?n"
    using n by (simp_all only: is_digit_ascii digit_val_ascii)
  then have "is_digit ev c" "digit_val ev c = int ?n" using c by simp_all
  moreover have "of_char lo \<le> 48 + ?n \<and> 48 + ?n \<le> (of_char hi :: nat)"
    using assms unfolding in_range_def by linarith
  ultimately show ?thesis using c n by (auto simp: digit_char_def)
qed

lemma fmt_d_2_digits: "a < 10 \<Longrightarrow> b < 10 \<Longrightarrow> fmt_d 2 (10 * int a + int b) = [digit_char a, digit_char b]"
  using fmt_d_2[of "10 * int a + int b"] by (simp add: nat_add_distrib nat_mult_distrib)

lemma fmt_d_1_digit: "a < 10 \<Longrightarrow> fmt_d 1 (int a) = [digit_char a]"
  using fmt_d_1[of "int a"] by simp

lemma digit_val_nat:
  "nat (digit_val ev c) < 10" "digit_val ev c = int (nat (digit_val ev c))"
  using digit_val_bounds[of ev c] by linarith+

lemma rx_m_sound:
  assumes "(m, r) \<in> set (rx_m s)"
  shows "s = m @ r \<and> 1 \<le> py_int ev m \<and> py_int ev m \<le> 12 \<and> m \<in> set (month_texts (py_int ev m))"
proof -
  consider
      (tens) c where "m = [ch CHR ''1'', c]" "in_range CHR ''0'' CHR ''2'' c" "s = m @ r"
    | (padded) c where "m = [ch CHR ''0'', c]" "in_range CHR ''1'' CHR ''9'' c" "s = m @ r"
    | (single) c where "m = [c]" "in_range CHR ''1'' CHR ''9'' c" "s = m @ r"
    using assms by (auto simp: rx_m_def in_rx_alt in_rx_seq in_rx_chr)
  then show ?thesis
  proof cases
    case tens
    from range_digit[OF tens(2), of ev] obtain n where n: "c = digit_char n" "n \<le> 2"
      "is_digit ev c" "digit_val ev c = int n" by auto
    have m: "m = [digit_char 1, digit_char n]" using tens(1) n(1) by (simp add: digit_char_def)
    have v: "py_int ev m = 10 * int 1 + int n"
      using n(3,4) by (simp add: tens(1) py_int_2 is_digit_simps digit_val_simps)
    have "fmt_d 2 (py_int ev m) = m" unfolding v using n(2) by (subst fmt_d_2_digits) (simp_all add: m)
    then show ?thesis using tens(3) v n(2) by (simp add: month_texts_def)
  next
    case padded
    from range_digit[OF padded(2), of ev] obtain n where n: "c = digit_char n" "1 \<le> n" "n \<le> 9"
      "is_digit ev c" "digit_val ev c = int n" by auto
    have m: "m = [digit_char 0, digit_char n]" using padded(1) n(1) by (simp add: digit_char_def)
    have v: "py_int ev m = 10 * int 0 + int n"
      using n(4,5) by (simp add: padded(1) py_int_2 is_digit_simps digit_val_simps)
    have "fmt_d 2 (py_int ev m) = m" unfolding v using n(3) by (subst fmt_d_2_digits) (simp_all add: m)
    then show ?thesis using padded(3) v n(2,3) by (simp add: month_texts_def)
  next
    case single
    from range_digit[OF single(2), of ev] obtain n where n: "c = digit_char n" "1 \<le> n" "n \<le> 9"
      "is_digit ev c" "digit_val ev c = int n" by auto
    have m: "m = [digit_char n]" using single(1) n(1) by simp
    have v: "py_int ev m = int n"
      using n(4,5) by (simp add: single(1) py_int_1)
    have "fmt_d 1 (py_int ev m) = m" unfolding v using n(3) by (subst fmt_d_1_digit) (simp_all add: m)
    then show ?thesis using single(3) v n(2,3) by (simp add: month_texts_def)
  qed
qed

lemma rx_d_sound:
  assumes "(d, r) \<in> set (rx_d ev s)"
  shows "s = d @ r \<and> 1 \<le> py_int ev d \<and> py_int ev d \<le> 31 \<and> d \<in> set (day_texts ev (py_int ev d))"
proof -
  consider
      (thirty) c where "d = [ch CHR ''3'', c]" "in_range CHR ''0'' CHR ''1'' c" "s = d @ r"
    | (tens) c c' where "d = [c, c']" "in_range CHR ''1'' CHR ''2'' c" "is_digit ev c'" "s = d @ r"
    | (padded) c where "d = [ch CHR ''0'', c]" "in_range CHR ''1'' CHR ''9'' c" "s = d @ r"
    | (single) c where "d = [c]" "in_range CHR ''1'' CHR ''9'' c" "s = d @ r"
    | (blank) c where "d = [ch CHR '' '', c]" "in_range CHR ''1'' CHR ''9'' c" "s = d @ r"
    using assms by (auto simp: rx_d_def in_rx_alt in_rx_seq in_rx_chr)
  then show ?thesis
  proof cases
    case thirty
    from range_digit[OF thirty(2), of ev] obtain n where n: "c = digit_char n" "n \<le> 1"
      "is_digit ev c" "digit_val ev c = int n" by auto
    have d: "d = [digit_char 3, digit_char n]" using thirty(1) n(1) by (simp add: digit_char_def)
    have v: "py_int ev d = 10 * int 3 + int n"
      using n(3,4) by (simp add: thirty(1) py_int_2 is_digit_simps digit_val_simps)
    have "fmt_d 2 (py_int ev d) = d" unfolding v using n(2) by (subst fmt_d_2_digits) (simp_all add: d)
    then show ?thesis using thirty(3) v n(2) by (simp add: day_texts_def)
  next
    case tens
    from range_digit[OF tens(2), of ev] obtain a where a: "c = digit_char a" "1 \<le> a" "a \<le> 2"
      "is_digit ev c" "digit_val ev c = int a" by auto
    define b where "b = nat (digit_val ev c')"
    have b: "b < 10" "digit_val ev c' = int b"
      using digit_val_nat[of ev c'] by (simp_all add: b_def)
    have d: "d = [digit_char a, c']" using tens(1) a(1) by simp
    have v: "py_int ev d = 10 * int a + int b"
      unfolding tens(1) py_int_2[OF a(4)] using a(5) b(2) by simp
    have rng: "10 \<le> 10 * int a + int b" "10 * int a + int b \<le> 29"
      using a(2,3) b(1) by simp_all
    have nat: "nat (10 * int a + int b) = 10 * a + b"
      by (simp add: nat_add_distrib nat_mult_distrib)
    have dv: "(10 * a + b) div 10 = a" "(10 * a + b) mod 10 = b" using b(1) by simp_all
    have mem: "c' \<in> set (digit_chars ev b)"
      using in_digit_chars[OF b(1), of c' ev] tens(3) b(2) by simp
    have "[digit_char a, c'] \<in> set (day_texts ev (10 * int a + int b))"
      unfolding day_texts_def nat dv using rng mem by simp
    then have "d \<in> set (day_texts ev (py_int ev d))"
      by (subst v) (simp only: d)
    then show ?thesis using tens(4) v rng by simp
  next
    case padded
    from range_digit[OF padded(2), of ev] obtain n where n: "c = digit_char n" "1 \<le> n" "n \<le> 9"
      "is_digit ev c" "digit_val ev c = int n" by auto
    have d: "d = [digit_char 0, digit_char n]" using padded(1) n(1) by (simp add: digit_char_def)
    have v: "py_int ev d = 10 * int 0 + int n"
      using n(4,5) by (simp add: padded(1) py_int_2 is_digit_simps digit_val_simps)
    have "fmt_d 2 (py_int ev d) = d" unfolding v using n(3) by (subst fmt_d_2_digits) (simp_all add: d)
    then show ?thesis using padded(3) v n(2,3) by (simp add: day_texts_def)
  next
    case single
    from range_digit[OF single(2), of ev] obtain n where n: "c = digit_char n" "1 \<le> n" "n \<le> 9"
      "is_digit ev c" "digit_val ev c = int n" by auto
    have d: "d = [digit_char n]" using single(1) n(1) by simp
    have v: "py_int ev d = int n"
      using n(4,5) by (simp add: single(1) py_int_1)
    have "fmt_d 1 (py_int ev d) = d" unfolding v using n(3) by (subst fmt_d_1_digit) (simp_all add: d)
    then show ?thesis using single(3) v n(2,3) by (simp add: day_texts_def)
  next
    case blank
    from range_digit[OF blank(2), of ev] obtain n where n: "c = digit_char n" "1 \<le> n" "n \<le> 9"
      "is_digit ev c" "digit_val ev c = int n" by auto
    have d: "d = [ch CHR '' '', digit_char n]" using blank(1) n(1) by simp
    have v: "py_int ev d = int n"
      using py_int_blank[OF n(4)] n(5) by (simp add: blank(1))
    have "ch CHR '' '' # fmt_d 1 (py_int ev d) = d"
      unfolding v using n(3) by (subst fmt_d_1_digit) (simp_all add: d)
    then show ?thesis using blank(3) v n(2,3) by (simp add: day_texts_def)
  qed
qed

lemma mod_10_step: "c < 10 \<Longrightarrow> (10 * k + c) mod 10 = (c::nat)"
  by simp

lemma in_year_texts:
  "[a, b, c, e] \<in> set (year_texts ev y) \<longleftrightarrow>
     a \<in> set (digit_chars ev (y div 1000)) \<and> b \<in> set (digit_chars ev (y div 100 mod 10))
     \<and> c \<in> set (digit_chars ev (y div 10 mod 10)) \<and> e \<in> set (digit_chars ev (y mod 10))"
  by (auto simp: year_texts_def)

lemma year_texts_shape:
  "Y \<in> set (year_texts ev y) \<Longrightarrow> \<exists>a b c e. Y = [a, b, c, e]"
  by (auto simp: year_texts_def)

lemma rx_Y_sound:
  assumes "(Y, r) \<in> set (rx_Y ev s)"
  shows "s = Y @ r \<and> 0 \<le> py_int ev Y \<and> py_int ev Y \<le> 9999
         \<and> Y \<in> set (year_texts ev (nat (py_int ev Y)))"
proof -
  from assms obtain c1 c2 c3 c4 where Y: "Y = [c1, c2, c3, c4]" and s: "s = Y @ r"
    and dg: "is_digit ev c1" "is_digit ev c2" "is_digit ev c3" "is_digit ev c4"
    by (auto simp: rx_Y_def in_rx_seq in_rx_chr)
  define a where "a = nat (digit_val ev c1)"
  define b where "b = nat (digit_val ev c2)"
  define c where "c = nat (digit_val ev c3)"
  define e where "e = nat (digit_val ev c4)"
  have a: "a < 10" "digit_val ev c1 = int a" using digit_val_nat[of ev c1] by (simp_all add: a_def)
  have b: "b < 10" "digit_val ev c2 = int b" using digit_val_nat[of ev c2] by (simp_all add: b_def)
  have c: "c < 10" "digit_val ev c3 = int c" using digit_val_nat[of ev c3] by (simp_all add: c_def)
  have e: "e < 10" "digit_val ev c4 = int e" using digit_val_nat[of ev c4] by (simp_all add: e_def)
  have v: "py_int ev Y = 1000 * int a + 100 * int b + 10 * int c + int e"
    unfolding Y py_int_4[OF dg(1)] a(2) b(2) c(2) e(2) by simp
  let ?n = "1000 * a + 100 * b + 10 * c + e"
  have nat: "nat (py_int ev Y) = ?n" unfolding v by (simp add: nat_add_distrib nat_mult_distrib)
  have d3: "?n div 1000 = a"
    using a(1) b(1) c(1) e(1) by (intro div_nat_eqI) simp_all
  have "?n div 100 = 10 * a + b"
    using a(1) b(1) c(1) e(1) by (intro div_nat_eqI) simp_all
  then have d2: "?n div 100 mod 10 = b"
    by (simp only: mod_10_step[OF b(1)])
  have "?n div 10 = 10 * (10 * a + b) + c"
    using a(1) b(1) c(1) e(1) by (intro div_nat_eqI) simp_all
  then have d1: "?n div 10 mod 10 = c"
    by (simp only: mod_10_step[OF c(1)])
  have "?n mod 10 = (10 * (100 * a + 10 * b + c) + e) mod 10"
    by (rule arg_cong[where f = "\<lambda>x. x mod 10"]) simp
  then have d0: "?n mod 10 = e"
    by (simp only: mod_10_step[OF e(1)])
  have rng: "0 \<le> py_int ev Y" "py_int ev Y \<le> 9999"
    using a(1) b(1) c(1) e(1) unfolding v by simp_all
  have "c1 \<in> set (digit_chars ev a)" "c2 \<in> set (digit_chars ev b)"
    "c3 \<in> set (digit_chars ev c)" "c4 \<in> set (digit_chars ev e)"
    using in_digit_chars[OF a(1), of c1 ev] in_digit_chars[OF b(1), of c2 ev]
      in_digit_chars[OF c(1), of c3 ev] in_digit_chars[OF e(1), of c4 ev] dg
      a(2) b(2) c(2) e(2) by simp_all
  then have "Y \<in> set (year_texts ev (nat (py_int ev Y)))"
    unfolding nat unfolding Y in_year_texts d3 d2 d1 d0 by simp
  with s rng show ?thesis by simp
qed

lemma in_match_d:
  "z \<in> set (match_d ev Y m r4) \<Longrightarrow> \<exists>d r. z = (Y, m, d, r) \<and> (d, r) \<in> set (rx_d ev r4)"
  by (auto simp: match_d_def)

lemma in_match_m:
  assumes "z \<in> set (match_m ev Y r2)"
  shows "\<exists>m r3 x r4. (m, r3) \<in> set (rx_m r2) \<and> (x, r4) \<in> set (rx_dash r3)
           \<and> z \<in> set (match_d ev Y m r4)"
proof -
  from assms obtain mr where mr: "mr \<in> set (rx_m r2)"
      and "z \<in> set (concat (map (\<lambda>(x, r4). match_d ev Y (fst mr) r4) (rx_dash (snd mr))))"
    by (auto simp: match_m_def case_prod_beta)
  then obtain xr where "xr \<in> set (rx_dash (snd mr))" "z \<in> set (match_d ev Y (fst mr) (snd xr))"
    by (auto simp: case_prod_beta)
  then have "(fst mr, snd mr) \<in> set (rx_m r2) \<and> (fst xr, snd xr) \<in> set (rx_dash (snd mr))
           \<and> z \<in> set (match_d ev Y (fst mr) (snd xr))"
    using mr by simp
  then show ?thesis by blast
qed

lemma in_format_regex:
  assumes "z \<in> set (format_regex ev s)"
  shows "\<exists>Y r1 x r2. (Y, r1) \<in> set (rx_Y ev s) \<and> (x, r2) \<in> set (rx_dash r1)
           \<and> z \<in> set (match_m ev Y r2)"
proof -
  from assms obtain yr where yr: "yr \<in> set (rx_Y ev s)"
      and "z \<in> set (concat (map (\<lambda>(x, r2). match_m ev (fst yr) r2) (rx_dash (snd yr))))"
    by (auto simp: format_regex_def case_prod_beta)
  then obtain xr where "xr \<in> set (rx_dash (snd yr))" "z \<in> set (match_m ev (fst yr) (snd xr))"
    by (auto simp: case_prod_beta)
  then have "(fst yr, snd yr) \<in> set (rx_Y ev s) \<and> (fst xr, snd xr) \<in> set (rx_dash (snd yr))
           \<and> z \<in> set (match_m ev (fst yr) (snd xr))"
    using yr by simp
  then show ?thesis by blast
qed

lemma rx_dash_sound: "(x, r) \<in> set (rx_dash s) \<Longrightarrow> s = ch CHR ''-'' # r"
  by (auto simp: rx_dash_def in_rx_chr)

lemma format_regex_sound:
  assumes "(Y, m, d, r) \<in> set (format_regex ev s)"
  shows "s = Y @ ch CHR ''-'' # m @ ch CHR ''-'' # d @ r
       \<and> 0 \<le> py_int ev Y \<and> py_int ev Y \<le> 9999 \<and> Y \<in> set (year_texts ev (nat (py_int ev Y)))
       \<and> 1 \<le> py_int ev m \<and> py_int ev m \<le> 12 \<and> m \<in> set (month_texts (py_int ev m))
       \<and> 1 \<le> py_int ev d \<and> py_int ev d \<le> 31 \<and> d \<in> set (day_texts ev (py_int ev d))"
proof -
  from in_format_regex[OF assms] obtain Y' r1 x r2 where
    a: "(Y', r1) \<in> set (rx_Y ev s)" "(x, r2) \<in> set (rx_dash r1)"
       "(Y, m, d, r) \<in> set (match_m ev Y' r2)"
    by blast
  from in_match_m[OF a(3)] obtain m' r3 x' r4 where
    b: "(m', r3) \<in> set (rx_m r2)" "(x', r4) \<in> set (rx_dash r3)"
       "(Y, m, d, r) \<in> set (match_d ev Y' m' r4)"
    by blast
  from in_match_d[OF b(3)] have c: "Y' = Y" "m' = m" "(d, r) \<in> set (rx_d ev r4)"
    by auto
  note y = rx_Y_sound[OF a(1)[unfolded c(1)]]
  note mm = rx_m_sound[OF b(1)[unfolded c(2)], of ev]
  note dd = rx_d_sound[OF c(3)]
  have "s = Y @ ch CHR ''-'' # m @ ch CHR ''-'' # d @ r"
    using y mm dd rx_dash_sound[OF a(2)] rx_dash_sound[OF b(2)] by simp
  then show ?thesis using y mm dd by blast
qed

lemma in_accepted_texts:
  "s \<in> set (accepted_texts ev dt) \<longleftrightarrow>
     (\<exists>Y \<in> set (year_texts ev (nat (year dt))). \<exists>m \<in> set (month_texts (month dt)).
        \<exists>d \<in> set (day_texts ev (day dt)). s = Y @ ch CHR ''-'' # m @ ch CHR ''-'' # d)"
  by (auto simp: accepted_texts_def u_def)

lemma date_new_Inr:
  "date_new y m d = Inr dt \<longleftrightarrow> valid_date dt \<and> dt = \<lparr>year = y, month = m, day = d\<rparr>"
  by (auto simp: date_new_def)

lemma date_from_iso_sound:
  assumes "date_from_iso ev s = Inr dt"
  shows "valid_date dt \<and> s \<in> set (accepted_texts ev dt)"
proof -
  from assms obtain Y m d other where fr: "format_regex ev s = (Y, m, d, []) # other"
    and dn: "date_new (py_int ev Y) (py_int ev m) (py_int ev d) = Inr dt"
    by (auto simp: date_from_iso_def split: list.splits if_splits)
  from dn have v: "valid_date dt"
    and dt: "dt = \<lparr>year = py_int ev Y, month = py_int ev m, day = py_int ev d\<rparr>"
    by (auto simp: date_new_def split: if_splits)
  have "(Y, m, d, []) \<in> set (format_regex ev s)" using fr by simp
  from format_regex_sound[OF this]
  have "s = Y @ ch CHR ''-'' # m @ ch CHR ''-'' # d"
    "Y \<in> set (year_texts ev (nat (year dt)))"
    "m \<in> set (month_texts (month dt))" "d \<in> set (day_texts ev (day dt))"
    by (simp_all add: dt)
  then show ?thesis using v unfolding in_accepted_texts by blast
qed

lemma decimal_4:
  "1000 * (n div 1000) + 100 * (n div 100 mod 10) + 10 * (n div 10 mod 10) + n mod 10 = (n::nat)"
proof -
  have a: "n div 100 = n div 10 div 10" and b: "n div 1000 = n div 10 div 10 div 10"
    by (simp_all add: div_mult2_eq[symmetric])
  have "n = 10 * (n div 10) + n mod 10" by simp
  moreover have "n div 10 = 10 * (n div 10 div 10) + n div 10 mod 10" by simp
  moreover have "n div 10 div 10 = 10 * (n div 10 div 10 div 10) + n div 10 div 10 mod 10" by simp
  ultimately show ?thesis unfolding a b by linarith
qed

lemma year_text_parses:
  assumes y: "0 \<le> y" "y \<le> 9999" and Y: "Y \<in> set (year_texts ev (nat y))"
  shows "rx_Y ev (Y @ t) = [(Y, t)] \<and> py_int ev Y = y"
proof -
  let ?n = "nat y"
  have "?n < 10000" using y by simp
  then have small: "?n div 1000 < 10" "?n div 100 mod 10 < 10" "?n div 10 mod 10 < 10"
      "?n mod 10 < 10"
    by simp_all
  from year_texts_shape[OF Y] obtain a b c e where s: "Y = [a, b, c, e]" by blast
  from Y have m: "a \<in> set (digit_chars ev (?n div 1000))"
      "b \<in> set (digit_chars ev (?n div 100 mod 10))"
      "c \<in> set (digit_chars ev (?n div 10 mod 10))" "e \<in> set (digit_chars ev (?n mod 10))"
    unfolding s in_year_texts by simp_all
  have a: "is_digit ev a" "digit_val ev a = int (?n div 1000)"
    using m(1) in_digit_chars[OF small(1)] by simp_all
  have b: "is_digit ev b" "digit_val ev b = int (?n div 100 mod 10)"
    using m(2) in_digit_chars[OF small(2)] by simp_all
  have c: "is_digit ev c" "digit_val ev c = int (?n div 10 mod 10)"
    using m(3) in_digit_chars[OF small(3)] by simp_all
  have e: "is_digit ev e" "digit_val ev e = int (?n mod 10)"
    using m(4) in_digit_chars[OF small(4)] by simp_all
  have "py_int ev Y
        = 1000 * int (?n div 1000) + 100 * int (?n div 100 mod 10) + 10 * int (?n div 10 mod 10)
          + int (?n mod 10)"
    unfolding s py_int_4[OF a(1)] a(2) b(2) c(2) e(2) by (rule refl)
  also have "\<dots> = int (1000 * (?n div 1000) + 100 * (?n div 100 mod 10)
          + 10 * (?n div 10 mod 10) + ?n mod 10)"
    by simp
  also have "\<dots> = int ?n" by (simp only: decimal_4)
  finally have v: "py_int ev Y = y" using y by simp
  have "rx_Y ev (Y @ t) = [(Y, t)]"
    unfolding s using rx_Y_digits[OF a(1) b(1) c(1) e(1)] by simp
  with v show ?thesis by simp
qed

lemma accepted_text_parses:
  assumes v: "valid_date dt" and s: "s \<in> set (accepted_texts ev dt)"
  shows "date_from_iso ev s = Inr dt"
proof -
  from s obtain Y mt dx where Y: "Y \<in> set (year_texts ev (nat (year dt)))"
    and mt: "mt \<in> set (month_texts (month dt))"
    and dx: "dx \<in> set (day_texts ev (day dt))"
    and s': "s = Y @ ch CHR ''-'' # mt @ ch CHR ''-'' # dx"
    unfolding in_accepted_texts by blast
  from v have y: "0 \<le> year dt" "year dt \<le> 9999" by (simp_all add: valid_date_def)
  from valid_date_range[OF v] have r: "1 \<le> month dt" "month dt \<le> 12" "1 \<le> day dt" "day dt \<le> 31"
    by simp_all
  note yy = year_text_parses[OF y Y, of "ch CHR ''-'' # mt @ ch CHR ''-'' # dx"]
  have "rx_Y ev s = [(Y, ch CHR ''-'' # mt @ ch CHR ''-'' # dx)]"
    unfolding s' using yy by simp
  then have "format_regex ev s = match_m ev Y (mt @ ch CHR ''-'' # dx)"
    by (simp add: format_regex_def rx_dash_def rx_chr_simps)
  also have "\<dots> = match_d ev Y mt dx"
    using match_m_text[OF r(1,2) mt] by simp
  finally obtain other where fr: "format_regex ev s = (Y, mt, dx, []) # other"
    using match_d_text[OF r(3,4) dx] by metis
  have vals: "py_int ev Y = year dt" "py_int ev mt = month dt" "py_int ev dx = day dt"
    using yy match_m_text[OF r(1,2) mt] match_d_text[OF r(3,4) dx] by simp_all
  have "date_new (year dt) (month dt) (day dt) = Inr dt"
    using v by (cases dt) (simp add: date_new_def)
  then show ?thesis
    by (simp add: date_from_iso_def fr vals)
qed

lemma fmt_d_4_year_text:
  assumes "0 \<le> y" and "y \<le> 9999"
  shows "fmt_d 4 y \<in> set (year_texts ev (nat y))"
proof -
  let ?n = "nat y"
  have "?n < 10000" using assms by simp
  then have small: "?n div 1000 < 10" "?n div 100 mod 10 < 10" "?n div 10 mod 10 < 10"
      "?n mod 10 < 10"
    by simp_all
  have d: "digit_char k \<in> set (digit_chars ev k)" if "k < 10" for k
    unfolding in_digit_chars[OF that] digit_char_def
    using is_digit_ascii[OF that] digit_val_ascii[OF that] by simp
  show ?thesis
    unfolding fmt_d_4[OF assms] in_year_texts
    using d[OF small(1)] d[OF small(2)] d[OF small(3)] d[OF small(4)] by simp
qed

lemma fmt_d_2_day_text:
  assumes "1 \<le> d" and "d \<le> 31"
  shows "fmt_d 2 d \<in> set (day_texts ev d)"
proof (cases "10 \<le> d \<and> d \<le> 29")
  case False
  then have "\<not> (10 \<le> d \<and> d \<le> 29)" by simp
  then show ?thesis unfolding day_texts_def by (simp only: if_False) simp
next
  case True
  let ?n = "nat d"
  have k: "?n mod 10 < 10" by simp
  have "digit_char (?n mod 10) \<in> set (digit_chars ev (?n mod 10))"
    unfolding in_digit_chars[OF k] digit_char_def
    using is_digit_ascii[OF k] digit_val_ascii[OF k] by simp
  moreover have "fmt_d 2 d = [digit_char (?n div 10), digit_char (?n mod 10)]"
    using fmt_d_2[of d] True by simp
  ultimately show ?thesis using True by (simp add: day_texts_def)
qed

lemma isoformat_accepted:
  assumes "valid_date dt"
  shows "isoformat dt \<in> set (accepted_texts ev dt)"
proof -
  from assms have y: "0 \<le> year dt" "year dt \<le> 9999" by (simp_all add: valid_date_def)
  from valid_date_range[OF assms] have r: "1 \<le> day dt" "day dt \<le> 31" by simp_all
  have "fmt_d 2 (month dt) \<in> set (month_texts (month dt))" by (simp add: month_texts_def)
  then show ?thesis
    unfolding in_accepted_texts isoformat_def u_def
    using fmt_d_4_year_text[OF y, of ev] fmt_d_2_day_text[OF r, of ev] by auto
qed

lemma date_from_iso_error: "date_from_iso ev s = Inl e \<Longrightarrow> e = ValueError"
  by (auto simp: date_from_iso_def date_new_def split: list.splits if_splits)

text \<open>
  C7, as the program has it.  \<open>date_from_iso\<close> returns a date exactly on the texts made
  of the year in four digits, a dash, the month in two digits or (below ten) in one, a
  dash, and the day in two digits or (below ten) in one digit or in a blank and one digit,
  when year, month and day form a date of the calendar; the date returned is that date.
  The digits of the year and the second digit of a day from 10 to 29 may be any decimal
  digits of the Unicode database, every other digit is an ASCII digit.  On every other
  text it raises \<^verbatim>\<open>ValueError\<close>.  So the text \<^verbatim>\<open>YYYY-MM-DD\<close> of a date gives back the
  date, and \<^verbatim>\<open>2019-13-40\<close> raises \<^verbatim>\<open>ValueError\<close>.
\<close>

theorem date_from_iso_spec:
  "(date_from_iso ev s = Inr dt \<longleftrightarrow> valid_date dt \<and> s \<in> set (accepted_texts ev dt))
   \<and> ((\<forall>dt'. \<not> (valid_date dt' \<and> s \<in> set (accepted_texts ev dt'))) \<longrightarrow>
          date_from_iso ev s = Inl ValueError)
   \<and> (valid_date dt \<longrightarrow> date_from_iso ev (isoformat dt) = Inr dt)
   \<and> date_from_iso ev (u ''2019-13-40'') = Inl ValueError"
proof -
  have iff: "date_from_iso ev s = Inr dt \<longleftrightarrow> valid_date dt \<and> s \<in> set (accepted_texts ev dt)"
    for s dt
    using date_from_iso_sound accepted_text_parses by blast
  have other: "date_from_iso ev s = Inl ValueError"
    if "\<forall>dt'. \<not> (valid_date dt' \<and> s \<in> set (accepted_texts ev dt'))" for s
  proof (cases "date_from_iso ev s")
    case (Inl e)
    then show ?thesis using date_from_iso_error by blast
  next
    case (Inr dt')
    then show ?thesis using iff that by blast
  qed
  have iso: "date_from_iso ev (isoformat dt) = Inr dt" if "valid_date dt"
    using that iff isoformat_accepted by blast
  have bad: "date_from_iso ev (u ''2019-13-40'') = Inl ValueError"
    by (simp add: u_def date_from_iso_def format_regex_def rx_Y_def rx_eval)
  from iff other iso bad show ?thesis by blast
qed

lemma sample_digit:
  "is_digit sample_env 0x664" "digit_val sample_env 0x664 = 4"
  by (simp_all add: is_digit_def digit_val_def digit_run_def digit_zeros_def sample_env_def)

lemma sample_text_accepted:
  "u ''2019-01-1'' @ [0x664]
     \<in> set (accepted_texts sample_env \<lparr>year = 2019, month = 1, day = 14\<rparr>)"
proof -
  have Y: "u ''2019'' \<in> set (year_texts sample_env (nat 2019))"
    using fmt_d_4_year_text[of 2019 sample_env] by (simp add: fmt_eval u_def)
  have m: "u ''01'' \<in> set (month_texts 1)"
    by (simp add: month_texts_def fmt_eval u_def)
  have "(0x664::nat) \<in> set (digit_chars sample_env 4)"
    using in_digit_chars[of 4 "0x664" sample_env] sample_digit by simp
  then have d: "[49, 0x664] \<in> set (day_texts sample_env 14)"
    by (simp add: day_texts_def digit_char_def)
  have "u ''2019-01-1'' @ [0x664] = u ''2019'' @ ch CHR ''-'' # u ''01'' @ ch CHR ''-'' # [49, 0x664]"
    by (simp add: u_def)
  then show ?thesis
    unfolding in_accepted_texts using Y m d by (simp del: set_simps) blast
qed

theorem date_from_iso_spec_witness:
  "valid_date \<lparr>year = 2019, month = 1, day = 14\<rparr>
   \<and> u ''2019-01-1'' @ [0x664] \<in> set (accepted_texts sample_env \<lparr>year = 2019, month = 1, day = 14\<rparr>)
   \<and> isoformat \<lparr>year = 2019, month = 1, day = 14\<rparr> = u ''2019-01-14''
   \<and> date_from_iso sample_env (u ''2019-01-14'') = Inr \<lparr>year = 2019, month = 1, day = 14\<rparr>
   \<and> date_from_iso sample_env (u ''2019-01-1'' @ [0x664])
       = Inr \<lparr>year = 2019, month = 1, day = 14\<rparr>"
proof -
  have v: "valid_date \<lparr>year = 2019, month = 1, day = 14\<rparr>"
    by (simp add: valid_date_def days_in_month_def)
  have t: "isoformat \<lparr>year = 2019, month = 1, day = 14\<rparr> = u ''2019-01-14''"
    by (simp add: isoformat_def fmt_eval u_def)
  note a = sample_text_accepted
  from date_from_iso_spec[of sample_env "u ''2019-01-1'' @ [0x664]"
      "\<lparr>year = 2019, month = 1, day = 14\<rparr>"] v a t
  show ?thesis by simp
qed

text \<open>
  C7, as the specification has it, fails: \<^verbatim>\<open>2019-1-4\<close> is not of the form
  \<^verbatim>\<open>YYYY-MM-DD\<close> (it has eight characters, not ten, and is not the text of the date it
  denotes), and \<open>date_from_iso\<close> returns a date on it; so it does on the text
  \<^verbatim>\<open>2019-01-1\<close> followed by the Arabic-Indic digit four, which is not the text of a
  date either.
\<close>

theorem date_from_iso_not_exact:
  "date_from_iso sample_env (u ''2019-1-4'') = Inr \<lparr>year = 2019, month = 1, day = 4\<rparr>
   \<and> u ''2019-1-4'' \<noteq> isoformat \<lparr>year = 2019, month = 1, day = 4\<rparr>
   \<and> length (u ''2019-1-4'') \<noteq> length (u ''YYYY-MM-DD'')
   \<and> date_from_iso sample_env (u ''2019-01-1'' @ [0x664])
       = Inr \<lparr>year = 2019, month = 1, day = 14\<rparr>
   \<and> u ''2019-01-1'' @ [0x664] \<noteq> isoformat \<lparr>year = 2019, month = 1, day = 14\<rparr>"
proof -
  have 1: "date_from_iso sample_env (u ''2019-1-4'') = Inr \<lparr>year = 2019, month = 1, day = 4\<rparr>
   \<and> u ''2019-1-4'' \<noteq> isoformat \<lparr>year = 2019, month = 1, day = 4\<rparr>
   \<and> length (u ''2019-1-4'') \<noteq> length (u ''YYYY-MM-DD'')"
    by (simp add: u_def date_from_iso_def format_regex_def rx_Y_def rx_eval py_int_def
        digit_val_simps date_new_def valid_date_def days_in_month_def isoformat_def fmt_eval)
  have v: "valid_date \<lparr>year = 2019, month = 1, day = 14\<rparr>"
    by (simp add: valid_date_def days_in_month_def)
  have 2: "date_from_iso sample_env (u ''2019-01-1'' @ [0x664])
       = Inr \<lparr>year = 2019, month = 1, day = 14\<rparr>"
    using v sample_text_accepted by (rule accepted_text_parses)
  have 3: "u ''2019-01-1'' @ [0x664] \<noteq> isoformat \<lparr>year = 2019, month = 1, day = 14\<rparr>"
    by (simp add: isoformat_def fmt_eval u_def)
  from 1 2 3 show ?thesis by simp
qed

section \<open>The cell assignment stays inside the chart\<close>

text \<open>
  C9.  When the day of month of every entry lies between 1 and 31 and its month between 1
  and 12, each index of the cell assignment is accepted by the matrix of 31 rows and 12
  columns, and building the matrix raises no error.  Every date of the calendar, and so
  every date that \<open>date_from_iso\<close> returns, is in these ranges.
\<close>

theorem grid_write_in_bounds:
  assumes "\<forall>d \<in> set days. 1 \<le> day (edate d) \<and> day (edate d) \<le> 31
            \<and> 1 \<le> month (edate d) \<and> month (edate d) \<le> 12"
  shows "(\<forall>e. build_year_grid days \<noteq> Inl e)
       \<and> (\<forall>d \<in> set days.
             py_index h (day (edate d) - 1) = Inr (nat (day (edate d) - 1))
           \<and> nat (day (edate d) - 1) < h
           \<and> py_index w (month (edate d) - 1) = Inr (nat (month (edate d) - 1))
           \<and> nat (month (edate d) - 1) < w)
       \<and> (\<forall>d. valid_date d \<longrightarrow> 1 \<le> day d \<and> day d \<le> 31 \<and> 1 \<le> month d \<and> month d \<le> 12)
       \<and> (\<forall>s d. date_from_iso ev s = Inr d \<longrightarrow>
             1 \<le> day d \<and> day d \<le> 31 \<and> 1 \<le> month d \<and> month d \<le> 12)"
proof -
  from build_year_grid_cells[OF assms] have "\<forall>e. build_year_grid days \<noteq> Inl e"
    by auto
  moreover have "\<forall>d \<in> set days.
             py_index h (day (edate d) - 1) = Inr (nat (day (edate d) - 1))
           \<and> nat (day (edate d) - 1) < h
           \<and> py_index w (month (edate d) - 1) = Inr (nat (month (edate d) - 1))
           \<and> nat (month (edate d) - 1) < w"
    using assms by (auto simp: py_index_def h_def w_def)
  moreover have "\<forall>d. valid_date d \<longrightarrow> 1 \<le> day d \<and> day d \<le> 31 \<and> 1 \<le> month d \<and> month d \<le> 12"
    using valid_date_range by blast
  moreover have "\<forall>s d. date_from_iso ev s = Inr d \<longrightarrow>
             1 \<le> day d \<and> day d \<le> 31 \<and> 1 \<le> month d \<and> month d \<le> 12"
    using date_from_iso_sound valid_date_range by blast
  ultimately show ?thesis by (intro conjI)
qed

theorem grid_write_in_bounds_witness:
  "(1::int) \<le> 31 \<and> (31::int) \<le> 31 \<and> (1::int) \<le> 12 \<and> (12::int) \<le> 12
   \<and> build_year_grid
        [\<lparr>edate = \<lparr>year = 2019, month = 12, day = 31\<rparr>, mood = tired, comment = None\<rparr>] \<noteq> Inl IndexError
   \<and> py_index h 30 = Inr 30 \<and> py_index w 11 = Inr 11"
  using grid_write_in_bounds
    [of "[\<lparr>edate = \<lparr>year = 2019, month = 12, day = 31\<rparr>, mood = tired, comment = None\<rparr>]"]
  by simp

section \<open>Reading back what the writer wrote\<close>

lemma file_lines_LF: "file_lines (LF # t) = [LF] # file_lines t"
  by (simp add: file_lines.simps ends_line_def)

lemma file_lines_mid:
  assumes "\<not> ends_line c t" and "t \<noteq> []"
  shows "\<exists>l ls. file_lines t = l # ls \<and> file_lines (c # t) = (c # l) # ls"
proof -
  from assms(2) obtain d t' where t: "t = d # t'" by (cases t) auto
  have "file_lines t \<noteq> []" unfolding t by (simp add: file_lines.simps split: list.splits)
  then obtain l ls where "file_lines t = l # ls" by (cases "file_lines t") auto
  then show ?thesis using assms(1) by (simp add: file_lines.simps)
qed

lemma reader_lines_char:
  "reader_lines r ((c # l) # ls) =
     (case parse_process_char r (Chr c) of
        Inl e \<Rightarrow> ([], Some e)
      | Inr r' \<Rightarrow> reader_lines r' (l # ls))"
  by (simp add: reader_lines.simps split: sum.splits)

text \<open>Reading on from the middle of a text that goes on.\<close>

lemma read_char:
  assumes "t \<noteq> []"
  shows "reader_lines r (file_lines (c # t)) =
     (case parse_process_char r (Chr c) of
        Inl e \<Rightarrow> ([], Some e)
      | Inr r1 \<Rightarrow>
          if ends_line c t then reader_lines r1 ([] # file_lines t)
          else reader_lines r1 (file_lines t))"
proof (cases "ends_line c t")
  case True
  then have "file_lines (c # t) = [c] # file_lines t" by (simp add: file_lines.simps)
  then show ?thesis using True by (simp add: reader_lines_char split: sum.splits)
next
  case False
  from file_lines_mid[OF False assms] obtain l ls where
    "file_lines t = l # ls" "file_lines (c # t) = (c # l) # ls" by blast
  then show ?thesis using False by (simp add: reader_lines_char split: sum.splits)
qed

lemma read_LF:
  "reader_lines r (file_lines (LF # t)) =
     (case parse_process_char r (Chr LF) of
        Inl e \<Rightarrow> ([], Some e)
      | Inr r1 \<Rightarrow> reader_lines r1 ([] # file_lines t))"
  by (simp add: file_lines_LF reader_lines_char)

lemma quoted_eol:
  "state r = IN_QUOTED_FIELD \<Longrightarrow> reader_lines r ([] # ls) = reader_lines r ls"
  by (simp add: reader_lines.simps(2)[of r "[]"] parse_process_char_def)

lemma quoted_plain:
  assumes "state r = IN_QUOTED_FIELD" and "c \<noteq> quotechar" and "length (field r) < field_limit"
    and "t \<noteq> []"
  shows "reader_lines r (file_lines (c # t)) = reader_lines (r\<lparr>field := field r @ [c]\<rparr>) (file_lines t)"
proof -
  have "parse_process_char r (Chr c) = Inr (r\<lparr>field := field r @ [c]\<rparr>)"
    using assms(1,2,3) by (simp add: parse_process_char_def parse_add_char_def)
  moreover have "state (r\<lparr>field := field r @ [c]\<rparr>) = IN_QUOTED_FIELD"
    using assms(1) by simp
  ultimately show ?thesis
    using assms(4) by (simp add: read_char quoted_eol)
qed

lemma quoted_doubled:
  assumes "state r = IN_QUOTED_FIELD" and "length (field r) < field_limit" and "t \<noteq> []"
  shows "reader_lines r (file_lines (quotechar # quotechar # t))
         = reader_lines (r\<lparr>field := field r @ [quotechar]\<rparr>) (file_lines t)"
proof -
  let ?r1 = "r\<lparr>state := QUOTE_IN_QUOTED_FIELD\<rparr>"
  have 1: "parse_process_char r (Chr quotechar) = Inr ?r1"
    using assms(1) by (simp add: parse_process_char_def)
  have 2: "parse_process_char ?r1 (Chr quotechar) = Inr (r\<lparr>field := field r @ [quotechar]\<rparr>)"
    using assms(1,2) by (cases r) (simp add: parse_process_char_def parse_add_char_def)
  have e: "\<not> ends_line quotechar x" for x by (simp add: ends_line_def)
  show ?thesis
    using assms(3) by (simp add: read_char 1 2 e)
qed

lemma quoted_close:
  assumes "state r = IN_QUOTED_FIELD" and "t \<noteq> []"
  shows "reader_lines r (file_lines (quotechar # t))
         = reader_lines (r\<lparr>state := QUOTE_IN_QUOTED_FIELD\<rparr>) (file_lines t)"
proof -
  have 1: "parse_process_char r (Chr quotechar) = Inr (r\<lparr>state := QUOTE_IN_QUOTED_FIELD\<rparr>)"
    using assms(1) by (simp add: parse_process_char_def)
  have e: "\<not> ends_line quotechar t" by (simp add: ends_line_def)
  show ?thesis
    using assms(2) by (simp add: read_char 1 e)
qed

lemma quoted_content:
  assumes "state r = IN_QUOTED_FIELD" and "length (field r) + length s \<le> field_limit"
    and "t \<noteq> []"
  shows "reader_lines r (file_lines (double_quotes s @ quotechar # t))
         = reader_lines (r\<lparr>state := QUOTE_IN_QUOTED_FIELD, field := field r @ s\<rparr>) (file_lines t)"
  using assms
proof (induction s arbitrary: r)
  case Nil
  then show ?case by (simp add: quoted_close)
next
  case (Cons c s)
  let ?r' = "r\<lparr>field := field r @ [c]\<rparr>"
  have st: "state ?r' = IN_QUOTED_FIELD" using Cons.prems(1) by simp
  have len: "length (field ?r') + length s \<le> field_limit" using Cons.prems(2) by simp
  have lt: "length (field r) < field_limit" using Cons.prems(2) by simp
  have rest: "double_quotes s @ quotechar # t \<noteq> []" by simp
  have "reader_lines r (file_lines (double_quotes (c # s) @ quotechar # t))
        = reader_lines ?r' (file_lines (double_quotes s @ quotechar # t))"
  proof (cases "c = quotechar")
    case True
    then show ?thesis
      using quoted_doubled[OF Cons.prems(1) lt rest] by simp
  next
    case False
    then show ?thesis
      using quoted_plain[OF Cons.prems(1) False lt rest] by simp
  qed
  also have "\<dots> = reader_lines (?r'\<lparr>state := QUOTE_IN_QUOTED_FIELD, field := field ?r' @ s\<rparr>)
                      (file_lines t)"
    by (rule Cons.IH[OF st len Cons.prems(3)])
  finally show ?case by simp
qed

lemma quoted_too_long:
  assumes "state r = IN_QUOTED_FIELD" and "length (field r) \<le> field_limit"
    and "field_limit < length (field r) + length s" and "t \<noteq> []"
  shows "reader_lines r (file_lines (double_quotes s @ quotechar # t)) = ([], Some CsvError)"
  using assms
proof (induction s arbitrary: r)
  case Nil
  then show ?case by simp
next
  case (Cons c s)
  have rest: "double_quotes s @ quotechar # t \<noteq> []" by simp
  show ?case
  proof (cases "length (field r) < field_limit")
    case True
    let ?r' = "r\<lparr>field := field r @ [c]\<rparr>"
    have st: "state ?r' = IN_QUOTED_FIELD" using Cons.prems(1) by simp
    have le: "length (field ?r') \<le> field_limit" using True by simp
    have gt: "field_limit < length (field ?r') + length s" using Cons.prems(3) by simp
    have "reader_lines r (file_lines (double_quotes (c # s) @ quotechar # t))
          = reader_lines ?r' (file_lines (double_quotes s @ quotechar # t))"
    proof (cases "c = quotechar")
      case True
      then show ?thesis
        using quoted_doubled[OF Cons.prems(1) \<open>length (field r) < field_limit\<close> rest] by simp
    next
      case False
      then show ?thesis
        using quoted_plain[OF Cons.prems(1) False \<open>length (field r) < field_limit\<close> rest] by simp
    qed
    then show ?thesis
      using Cons.IH[OF st le gt Cons.prems(4)] by simp
  next
    case False
    then have full: "field_limit \<le> length (field r)" by simp
    show ?thesis
    proof (cases "c = quotechar")
      case True
      let ?r1 = "r\<lparr>state := QUOTE_IN_QUOTED_FIELD\<rparr>"
      have 1: "parse_process_char r (Chr quotechar) = Inr ?r1"
        using Cons.prems(1) by (simp add: parse_process_char_def)
      have 2: "parse_process_char ?r1 (Chr quotechar) = Inl CsvError"
        using full by (simp add: parse_process_char_def parse_add_char_def)
      have e: "\<not> ends_line quotechar x" for x by (simp add: ends_line_def)
      show ?thesis
        using True by (simp add: read_char 1 2 e)
    next
      case False
      have "parse_process_char r (Chr c) = Inl CsvError"
        using Cons.prems(1) False full by (simp add: parse_process_char_def parse_add_char_def)
      then show ?thesis
        using False by (simp add: read_char)
    qed
  qed
qed

lemma open_quote:
  assumes "state r = START_FIELD \<or> state r = START_RECORD" and "t \<noteq> []"
  shows "reader_lines r (file_lines (quotechar # t))
         = reader_lines (r\<lparr>state := IN_QUOTED_FIELD\<rparr>) (file_lines t)"
proof -
  have 1: "parse_process_char r (Chr quotechar) = Inr (r\<lparr>state := IN_QUOTED_FIELD\<rparr>)"
    using assms(1) by (auto simp: parse_process_char_def start_field_def)
  have e: "\<not> ends_line quotechar t" by (simp add: ends_line_def)
  show ?thesis
    using assms(2) by (simp add: read_char 1 e)
qed

lemma after_field_delimiter:
  assumes "state r = QUOTE_IN_QUOTED_FIELD" and "t \<noteq> []"
  shows "reader_lines r (file_lines (delimiter # t))
         = reader_lines ((parse_save_field r)\<lparr>state := START_FIELD\<rparr>) (file_lines t)"
proof -
  have 1: "parse_process_char r (Chr delimiter) = Inr ((parse_save_field r)\<lparr>state := START_FIELD\<rparr>)"
    using assms(1) by (simp add: parse_process_char_def)
  have e: "\<not> ends_line delimiter t" by (simp add: ends_line_def)
  show ?thesis
    using assms(2) by (simp add: read_char 1 e)
qed

lemma after_field_LF:
  assumes "state r = QUOTE_IN_QUOTED_FIELD"
  shows "reader_lines r (file_lines (LF # t))
         = (case reader_lines parse_reset (file_lines t) of
              (rows, err) \<Rightarrow> (rfields (parse_save_field r) # rows, err))"
proof -
  let ?r1 = "(parse_save_field r)\<lparr>state := EAT_CRNL\<rparr>"
  have 1: "parse_process_char r (Chr LF) = Inr ?r1"
    using assms by (simp add: parse_process_char_def)
  have 2: "parse_process_char ?r1 EOL = Inr (?r1\<lparr>state := START_RECORD\<rparr>)"
    by (simp add: parse_process_char_def)
  show ?thesis
    by (simp add: read_LF 1 reader_lines.simps(2)[of ?r1 "[]"] 2)
qed

lemma writerow3:
  "writerow [a, b, c] @ t =
     quotechar # double_quotes a @ quotechar # delimiter #
     quotechar # double_quotes b @ quotechar # delimiter #
     quotechar # double_quotes c @ quotechar # LF # t"
  by (simp add: writerow_def quoted_def)

lemma read_two_fields:
  assumes "length a \<le> field_limit" and "length b \<le> field_limit" and "t \<noteq> []"
  shows "reader_lines parse_reset
           (file_lines (quotechar # double_quotes a @ quotechar # delimiter #
                        quotechar # double_quotes b @ quotechar # delimiter # quotechar # t))
         = reader_lines \<lparr>state = IN_QUOTED_FIELD, field = [], rfields = [a, b]\<rparr> (file_lines t)"
proof -
  let ?r0 = "parse_reset\<lparr>state := IN_QUOTED_FIELD\<rparr>"
  let ?r1 = "\<lparr>state = IN_QUOTED_FIELD, field = [], rfields = [a]\<rparr>"
  have "reader_lines parse_reset
           (file_lines (quotechar # double_quotes a @ quotechar # delimiter #
                        quotechar # double_quotes b @ quotechar # delimiter # quotechar # t))
        = reader_lines ?r0 (file_lines (double_quotes a @ quotechar # delimiter #
                        quotechar # double_quotes b @ quotechar # delimiter # quotechar # t))"
    by (rule open_quote) (simp_all add: parse_reset_def)
  also have "\<dots> = reader_lines (?r0\<lparr>state := QUOTE_IN_QUOTED_FIELD, field := field ?r0 @ a\<rparr>)
        (file_lines (delimiter # quotechar # double_quotes b @ quotechar # delimiter # quotechar # t))"
    using assms(1) by (intro quoted_content) (simp_all add: parse_reset_def)
  also have "\<dots> = reader_lines \<lparr>state = START_FIELD, field = [], rfields = [a]\<rparr>
        (file_lines (quotechar # double_quotes b @ quotechar # delimiter # quotechar # t))"
    by (subst after_field_delimiter) (simp_all add: parse_reset_def parse_save_field_def)
  also have "\<dots> = reader_lines ?r1
        (file_lines (double_quotes b @ quotechar # delimiter # quotechar # t))"
    by (subst open_quote) simp_all
  also have "\<dots> = reader_lines (?r1\<lparr>state := QUOTE_IN_QUOTED_FIELD, field := field ?r1 @ b\<rparr>)
        (file_lines (delimiter # quotechar # t))"
    using assms(2) by (intro quoted_content) simp_all
  also have "\<dots> = reader_lines \<lparr>state = START_FIELD, field = [], rfields = [a, b]\<rparr>
        (file_lines (quotechar # t))"
    by (subst after_field_delimiter) (simp_all add: parse_save_field_def)
  also have "\<dots> = reader_lines \<lparr>state = IN_QUOTED_FIELD, field = [], rfields = [a, b]\<rparr> (file_lines t)"
    using assms(3) by (subst open_quote) simp_all
  finally show ?thesis .
qed

lemma read_row:
  assumes "length a \<le> field_limit" and "length b \<le> field_limit" and "length c \<le> field_limit"
  shows "reader_lines parse_reset (file_lines (writerow [a, b, c] @ t))
         = (case reader_lines parse_reset (file_lines t) of (rows, err) \<Rightarrow> ([a, b, c] # rows, err))"
proof -
  let ?r = "\<lparr>state = IN_QUOTED_FIELD, field = [], rfields = [a, b]\<rparr>"
  have "reader_lines parse_reset (file_lines (writerow [a, b, c] @ t))
        = reader_lines ?r (file_lines (double_quotes c @ quotechar # LF # t))"
    unfolding writerow3 using assms(1,2) by (intro read_two_fields) simp_all
  also have "\<dots> = reader_lines (?r\<lparr>state := QUOTE_IN_QUOTED_FIELD, field := field ?r @ c\<rparr>)
        (file_lines (LF # t))"
    using assms(3) by (intro quoted_content) simp_all
  also have "\<dots> = (case reader_lines parse_reset (file_lines t) of
                      (rows, err) \<Rightarrow> ([a, b, c] # rows, err))"
    by (subst after_field_LF) (simp_all add: parse_save_field_def)
  finally show ?thesis .
qed

lemma read_row_too_long:
  assumes "length a \<le> field_limit" and "length b \<le> field_limit" and "field_limit < length c"
  shows "reader_lines parse_reset (file_lines (writerow [a, b, c] @ t)) = ([], Some CsvError)"
proof -
  let ?r = "\<lparr>state = IN_QUOTED_FIELD, field = [], rfields = [a, b]\<rparr>"
  have "reader_lines parse_reset (file_lines (writerow [a, b, c] @ t))
        = reader_lines ?r (file_lines (double_quotes c @ quotechar # LF # t))"
    unfolding writerow3 using assms(1,2) by (intro read_two_fields) simp_all
  also have "\<dots> = ([], Some CsvError)"
    using assms(3) by (intro quoted_too_long) simp_all
  finally show ?thesis .
qed

lemma row_text_row_of: "row_text e = Inr (writerow (row_of e))"
  by (simp add: row_text_def dict_to_list_def to_dict_def fieldnames_def cell_str_def row_of_def
      u_def split: option.splits)

lemma encode_write_plain:
  assumes "\<forall>c \<in> set t. codec ev c = Some c"
  shows "encode_write ev t = Inr t"
proof -
  have "\<not> list_ex (\<lambda>c. codec ev c = None) t"
    using assms by (auto simp: list_ex_iff)
  moreover have "map (\<lambda>c. case codec ev c of None \<Rightarrow> c | Some c' \<Rightarrow> c') t = t"
    using assms by (intro map_idI) simp
  ultimately show ?thesis by (simp add: encode_write_def)
qed

lemma encode_write_refused:
  "x \<in> set t \<Longrightarrow> codec ev x = None \<Longrightarrow> encode_write ev t = Inl UnicodeEncodeError"
  by (auto simp: encode_write_def list_ex_iff)

lemma encode_write_error: "encode_write ev t = Inl e \<Longrightarrow> e = UnicodeEncodeError"
  by (auto simp: encode_write_def split: if_splits)

lemma set_double_quotes: "set (double_quotes s) = set s"
  by (induction s) auto

lemma set_writerow3:
  "set (writerow [a, b, c]) = set a \<union> set b \<union> set c \<union> {quotechar, delimiter, LF}"
  by (auto simp: writerow_def quoted_def set_double_quotes)

lemma length_isoformat:
  assumes "valid_date d"
  shows "length (isoformat d) = 10"
proof -
  have y: "0 \<le> year d" "year d \<le> 9999"
    using assms by (simp_all add: valid_date_def)
  have m: "0 \<le> month d" "month d \<le> 99" and dd: "0 \<le> day d" "day d \<le> 99"
    using valid_date_range[OF assms] by simp_all
  show ?thesis
    unfolding isoformat_def fmt_d_4[OF y] fmt_d_2[OF m] fmt_d_2[OF dd] by (simp add: u_def)
qed

lemma ascii_isoformat:
  assumes "valid_date d" and "x \<in> set (isoformat d)"
  shows "x < 128"
proof -
  have y: "0 \<le> year d" "year d \<le> 9999"
    using assms(1) by (simp_all add: valid_date_def)
  have m: "0 \<le> month d" "month d \<le> 99" and dd: "0 \<le> day d" "day d \<le> 99"
    using valid_date_range[OF assms(1)] by simp_all
  have k: "digit_char (n mod 10) < 128" for n by (simp add: digit_char_def)
  have "nat (year d) < 10000" "nat (month d) < 100" "nat (day d) < 100"
    using y m dd by simp_all
  then have "nat (year d) div 1000 < 10" "nat (month d) div 10 < 10" "nat (day d) div 10 < 10"
    by simp_all
  then have "digit_char (nat (year d) div 1000) < 128" "digit_char (nat (month d) div 10) < 128"
      "digit_char (nat (day d) div 10) < 128"
    by (simp_all add: digit_char_def)
  then show ?thesis
    using assms(2) k unfolding isoformat_def fmt_d_4[OF y] fmt_d_2[OF m] fmt_d_2[OF dd]
    by (auto simp: u_def)
qed

lemma length_name: "length (name m) \<le> 8"
  by (cases m) (simp_all add: u_def)

lemma ascii_name: "x \<in> set (name m) \<Longrightarrow> x < 128"
  by (cases m) (auto simp: u_def)

lemma ascii_header: "x \<in> set header_text \<Longrightarrow> x < 128"
  unfolding header_text_def fieldnames_def set_writerow3 by (auto simp: u_def)

lemma DayMood_getitem_name: "DayMood_getitem (name m) = Inr m"
  by (cases m) (simp_all add: DayMood_getitem_def u_def)

lemma DayMood_getitem_Inr: "DayMood_getitem s = Inr m \<Longrightarrow> s = name m"
  by (auto simp: DayMood_getitem_def split: if_splits)

lemma DayMood_getitem_error: "DayMood_getitem s = Inl e \<Longrightarrow> e = KeyError"
  by (auto simp: DayMood_getitem_def split: if_splits)

lemma row_plain:
  assumes "\<forall>c < 128. codec ev c = Some c" and "valid_date (edate e)"
    and "\<forall>c. comment e = Some c \<longrightarrow> (\<forall>x \<in> set c. codec ev x = Some x)"
  shows "\<forall>x \<in> set (writerow (row_of e)). codec ev x = Some x"
proof
  fix x assume "x \<in> set (writerow (row_of e))"
  then consider "x \<in> set (isoformat (edate e))" | "x \<in> set (name (mood e))"
    | "x \<in> set (case comment e of None \<Rightarrow> [] | Some c \<Rightarrow> c)" | "x = quotechar \<or> x = delimiter \<or> x = LF"
    unfolding row_of_def set_writerow3 by auto
  then show "codec ev x = Some x"
  proof cases
    case 1
    then show ?thesis using ascii_isoformat[OF assms(2)] assms(1) by simp
  next
    case 2
    then show ?thesis using ascii_name assms(1) by simp
  next
    case 3
    then show ?thesis using assms(3) by (cases "comment e") simp_all
  next
    case 4
    then show ?thesis using assms(1) by auto
  qed
qed

lemma header_plain:
  assumes "\<forall>c < 128. codec ev c = Some c"
  shows "encode_write ev header_text = Inr header_text"
  using ascii_header assms by (intro encode_write_plain) simp

lemma rows_text_concat:
  assumes "\<forall>c < 128. codec ev c = Some c"
    and "\<forall>e \<in> set days. valid_date (edate e)
           \<and> (\<forall>c. comment e = Some c \<longrightarrow> (\<forall>x \<in> set c. codec ev x = Some x))"
  shows "rows_text ev days = Inr (concat (map (\<lambda>e. writerow (row_of e)) days))"
  using assms(2)
proof (induction days)
  case Nil
  then show ?case by simp
next
  case (Cons e es)
  have "encode_write ev (writerow (row_of e)) = Inr (writerow (row_of e))"
    using row_plain[OF assms(1), of e] Cons.prems by (intro encode_write_plain) simp
  moreover have "rows_text ev es = Inr (concat (map (\<lambda>e. writerow (row_of e)) es))"
    using Cons by simp
  ultimately show ?case by (simp add: row_text_row_of)
qed

lemma csv_text_concat:
  assumes "\<forall>c < 128. codec ev c = Some c"
    and "\<forall>e \<in> set days. valid_date (edate e)
           \<and> (\<forall>c. comment e = Some c \<longrightarrow> (\<forall>x \<in> set c. codec ev x = Some x))"
  shows "csv_text ev days
         = Inr (writerow fieldnames @ concat (map (\<lambda>e. writerow (row_of e)) days))"
  using rows_text_concat[OF assms] header_plain[OF assms(1)]
  by (simp add: csv_text_def header_text_def)

lemma rows_text_refused:
  assumes "e \<in> set days" and "comment e = Some c" and "x \<in> set c" and "codec ev x = None"
  shows "rows_text ev days = Inl UnicodeEncodeError"
  using assms(1)
proof (induction days)
  case Nil
  then show ?case by simp
next
  case (Cons d ds)
  show ?case
  proof (cases "encode_write ev (writerow (row_of d))")
    case (Inl er)
    then show ?thesis using encode_write_error[OF Inl] by (simp add: row_text_row_of)
  next
    case (Inr t)
    have "x \<in> set (writerow (row_of e))"
      using assms(2,3) unfolding row_of_def set_writerow3 by simp
    from encode_write_refused[OF this assms(4)] Inr have "d \<noteq> e" by auto
    then have "rows_text ev ds = Inl UnicodeEncodeError" using Cons by simp
    then show ?thesis using Inr by (simp add: row_text_row_of)
  qed
qed

lemma csv_text_refused:
  assumes "e \<in> set days" and "comment e = Some c" and "x \<in> set c" and "codec ev x = None"
  shows "csv_text ev days = Inl UnicodeEncodeError"
proof (cases "encode_write ev header_text")
  case (Inl er)
  then show ?thesis using encode_write_error[OF Inl] by (simp add: csv_text_def)
next
  case (Inr t)
  then show ?thesis using rows_text_refused[OF assms] by (simp add: csv_text_def)
qed

lemma read_rows:
  assumes "\<forall>e \<in> set days. valid_date (edate e)
             \<and> (\<forall>c. comment e = Some c \<longrightarrow> length c \<le> field_limit)"
  shows "reader_lines parse_reset (file_lines (concat (map (\<lambda>e. writerow (row_of e)) days)))
         = (map row_of days, None)"
  using assms
proof (induction days)
  case Nil
  then show ?case by (simp add: file_lines.simps reader_lines.simps parse_reset_def)
next
  case (Cons e es)
  have a: "length (isoformat (edate e)) \<le> field_limit"
    using Cons.prems by (simp add: length_isoformat field_limit_def)
  have b: "length (name (mood e)) \<le> field_limit"
    using length_name[of "mood e"] by (simp add: field_limit_def)
  have c: "length (case comment e of None \<Rightarrow> [] | Some c \<Rightarrow> c) \<le> field_limit"
    using Cons.prems by (simp split: option.splits)
  have "reader_lines parse_reset (file_lines (concat (map (\<lambda>e. writerow (row_of e)) es)))
        = (map row_of es, None)"
    using Cons.IH Cons.prems by simp
  then show ?case
    using read_row[OF a b c] by (simp add: row_of_def)
qed

lemma row_dict_fieldnames:
  "row_dict fieldnames [a, b, c] (u ''date'') = Some (Some a)"
  "row_dict fieldnames [a, b, c] (u ''mood'') = Some (Some b)"
  "row_dict fieldnames [a, b, c] (u ''comment'') = Some (Some c)"
  by (simp_all add: row_dict_def fieldnames_def u_def)

lemma entry_of_row_row_of:
  assumes "valid_date (edate e)" and "comment e = Some c"
  shows "entry_of_row ev (row_dict fieldnames (row_of e)) = Inr e"
proof -
  have "date_from_iso ev (isoformat (edate e)) = Inr (edate e)"
    using accepted_text_parses[OF assms(1) isoformat_accepted[OF assms(1)]] .
  then show ?thesis
    using assms(2)
    by (simp add: entry_of_row_def row_of_def row_dict_fieldnames DayMood_getitem_name)
qed

lemma entries_of_rows_row_of:
  assumes "\<forall>e \<in> set days. valid_date (edate e) \<and> comment e \<noteq> None"
  shows "entries_of_rows ev (map (\<lambda>e. row_dict fieldnames (row_of e)) days) None = Inr days"
  using assms
proof (induction days)
  case Nil
  then show ?case by simp
next
  case (Cons e es)
  then obtain c where "comment e = Some c" by auto
  then have "entry_of_row ev (row_dict fieldnames (row_of e)) = Inr e"
    using Cons.prems entry_of_row_row_of by simp
  then show ?case using Cons by simp
qed

lemma fieldnames_lengths:
  "length (u ''date'') \<le> field_limit" "length (u ''mood'') \<le> field_limit"
  "length (u ''comment'') \<le> field_limit"
  by (simp_all add: field_limit_def u_def)

lemma parse_csv_text:
  assumes "\<forall>e \<in> set days. valid_date (edate e)
             \<and> (\<exists>c. comment e = Some c \<and> length c \<le> field_limit)"
  shows "parse_days ev (writerow fieldnames @ concat (map (\<lambda>e. writerow (row_of e)) days))
         = Inr days"
proof -
  have ok: "\<forall>e \<in> set days. valid_date (edate e)
             \<and> (\<forall>c. comment e = Some c \<longrightarrow> length c \<le> field_limit)"
    using assms by auto
  have rows: "reader_lines parse_reset
          (file_lines (writerow fieldnames @ concat (map (\<lambda>e. writerow (row_of e)) days)))
        = (fieldnames # map row_of days, None)"
    unfolding fieldnames_def
    by (subst read_row[OF fieldnames_lengths]) (simp add: read_rows[OF ok])
  have ne: "filter (\<lambda>r. r \<noteq> []) (map row_of days) = map row_of days"
    by (induction days) (simp_all add: row_of_def)
  have "dict_reader (file_lines (writerow fieldnames @ concat (map (\<lambda>e. writerow (row_of e)) days)))
        = (map (\<lambda>e. row_dict fieldnames (row_of e)) days, None)"
    by (simp add: dict_reader_def rows ne comp_def)
  moreover have "\<forall>e \<in> set days. valid_date (edate e) \<and> comment e \<noteq> None"
    using assms by auto
  ultimately show ?thesis
    by (simp add: parse_days_def entries_of_rows_row_of)
qed

lemma parse_long_comment:
  assumes "valid_date (edate e)" and "comment e = Some c" and "field_limit < length c"
  shows "parse_days ev (writerow fieldnames @ concat (map (\<lambda>e. writerow (row_of e)) (e # es)))
         = Inl CsvError"
proof -
  have a: "length (isoformat (edate e)) \<le> field_limit"
    using assms(1) by (simp add: length_isoformat field_limit_def)
  have b: "length (name (mood e)) \<le> field_limit"
    using length_name[of "mood e"] by (simp add: field_limit_def)
  have "reader_lines parse_reset
          (file_lines (writerow fieldnames @ concat (map (\<lambda>e. writerow (row_of e)) (e # es))))
        = ([fieldnames], Some CsvError)"
    unfolding fieldnames_def
    using read_row_too_long[OF a b assms(3)] assms(2)
    by (subst read_row[OF fieldnames_lengths]) (simp add: row_of_def)
  then show ?thesis
    by (simp add: parse_days_def dict_reader_def)
qed

lemma date_2019_01_14:
  "date_from_iso ev (u ''2019-01-14'') = Inr \<lparr>year = 2019, month = 1, day = 14\<rparr>"
  by (simp add: u_def date_from_iso_def format_regex_def rx_Y_def rx_eval py_int_def
      digit_val_simps date_new_def valid_date_def days_in_month_def)

lemmas reader_eval =
  parse_days_def dict_reader_def file_lines.simps ends_line_def reader_lines.simps
  parse_process_char_def start_field_def parse_add_char_def parse_save_field_def parse_reset_def
  field_limit_def row_dict_def entry_of_row_def u_def

lemma sample_codec: "c < 0xD800 \<Longrightarrow> codec sample_env c = Some c"
  by (simp add: sample_env_def)

lemma entry_of_row_error:
  "entry_of_row ev r = Inl e \<Longrightarrow> e = ValueError \<or> e = KeyError \<or> e = TypeError"
  by (auto simp: entry_of_row_def split: option.splits sum.splits
      dest: date_from_iso_error DayMood_getitem_error)

lemma entries_of_rows_bad:
  assumes "r \<in> set rows" and "\<forall>x. entry_of_row ev r \<noteq> Inr x"
  shows "entries_of_rows ev rows err = Inl ValueError \<or> entries_of_rows ev rows err = Inl KeyError
         \<or> entries_of_rows ev rows err = Inl TypeError"
  using assms
proof (induction rows)
  case Nil
  then show ?case by simp
next
  case (Cons a rows)
  show ?case
  proof (cases "entry_of_row ev a")
    case (Inl e)
    then show ?thesis using entry_of_row_error[OF Inl] by auto
  next
    case (Inr x)
    then have "r \<in> set rows" using Cons.prems by auto
    from Cons.IH[OF this Cons.prems(2)] show ?thesis using Inr by auto
  qed
qed

lemma bad_row:
  assumes "(\<exists>s. r (u ''date'') = Some (Some s) \<and> (\<forall>d. date_from_iso ev s \<noteq> Inr d))
         \<or> (\<exists>s. r (u ''mood'') = Some (Some s) \<and> (\<forall>m. s \<noteq> name m))"
  shows "entry_of_row ev r \<noteq> Inr x"
proof
  assume ok: "entry_of_row ev r = Inr x"
  then obtain s1 s2 where s: "r (u ''date'') = Some (Some s1)" "date_from_iso ev s1 = Inr (edate x)"
      "r (u ''mood'') = Some (Some s2)" "DayMood_getitem s2 = Inr (mood x)"
    by (auto simp: entry_of_row_def split: option.splits sum.splits)
  from assms show False
  proof
    assume "\<exists>s. r (u ''date'') = Some (Some s) \<and> (\<forall>d. date_from_iso ev s \<noteq> Inr d)"
    then show False using s(1,2) by auto
  next
    assume "\<exists>s. r (u ''mood'') = Some (Some s) \<and> (\<forall>m. s \<noteq> name m)"
    then show False using s(3) DayMood_getitem_Inr[OF s(4)] by auto
  qed
qed

section \<open>Reading and writing the store\<close>

text \<open>
  C4.  When a row of the file has a date that does not parse, or a mood that is not the
  name of a member of \<^verbatim>\<open>DayMood\<close>, reading the file raises an exception and returns no
  list: \<^verbatim>\<open>ValueError\<close> for a date, \<^verbatim>\<open>KeyError\<close> for a mood (or the exception of an earlier
  row); these play the part of the error of a malformed record.  A file with the mood
  \<^verbatim>\<open>weird\<close> raises \<^verbatim>\<open>KeyError\<close>.
\<close>

theorem load_all_or_nothing:
  assumes "fs file = Some text" and "dict_reader (file_lines text) = (rows, err)"
    and "r \<in> set rows"
    and "(\<exists>s. r (u ''date'') = Some (Some s) \<and> (\<forall>d. date_from_iso ev s \<noteq> Inr d))
         \<or> (\<exists>s. r (u ''mood'') = Some (Some s) \<and> (\<forall>m. s \<noteq> name m))"
  shows "(read_days_from_file ev fs file = Inl ValueError
          \<or> read_days_from_file ev fs file = Inl KeyError
          \<or> read_days_from_file ev fs file = Inl TypeError)
       \<and> (\<forall>days. read_days_from_file ev fs file \<noteq> Inr days)
       \<and> parse_days ev (u ''date,mood,comment'' @ [LF] @ u ''2019-01-14,weird,great day!'' @ [LF])
           = Inl KeyError"
proof -
  have "\<forall>x. entry_of_row ev r \<noteq> Inr x" using bad_row[OF assms(4)] by blast
  from entries_of_rows_bad[OF assms(3) this, of err]
  have 1: "read_days_from_file ev fs file = Inl ValueError
          \<or> read_days_from_file ev fs file = Inl KeyError
          \<or> read_days_from_file ev fs file = Inl TypeError"
    using assms(1,2) by (simp add: read_days_from_file_def parse_days_def)
  then have 2: "\<forall>days. read_days_from_file ev fs file \<noteq> Inr days" by auto
  have 3: "parse_days ev (u ''date,mood,comment'' @ [LF] @ u ''2019-01-14,weird,great day!'' @ [LF])
           = Inl KeyError"
    using date_2019_01_14[of ev] by (simp add: reader_eval DayMood_getitem_def)
  from 1 2 3 show ?thesis by blast
qed

theorem load_all_or_nothing_witness:
  "read_days_from_file sample_env
     [(u ''.'', u ''year_in_pixels.csv'') \<mapsto>
        u ''date,mood,comment'' @ [LF] @ u ''2019-01-14,amazing,great day!'' @ [LF]
        @ u ''2019-01-15,weird,'' @ [LF]]
     (u ''.'', u ''year_in_pixels.csv'') = Inl ValueError
   \<or> read_days_from_file sample_env
     [(u ''.'', u ''year_in_pixels.csv'') \<mapsto>
        u ''date,mood,comment'' @ [LF] @ u ''2019-01-14,amazing,great day!'' @ [LF]
        @ u ''2019-01-15,weird,'' @ [LF]]
     (u ''.'', u ''year_in_pixels.csv'') = Inl KeyError
   \<or> read_days_from_file sample_env
     [(u ''.'', u ''year_in_pixels.csv'') \<mapsto>
        u ''date,mood,comment'' @ [LF] @ u ''2019-01-14,amazing,great day!'' @ [LF]
        @ u ''2019-01-15,weird,'' @ [LF]]
     (u ''.'', u ''year_in_pixels.csv'') = Inl TypeError"
proof -
  let ?f = "(u ''.'', u ''year_in_pixels.csv'')"
  let ?text = "u ''date,mood,comment'' @ [LF] @ u ''2019-01-14,amazing,great day!'' @ [LF]
        @ u ''2019-01-15,weird,'' @ [LF]"
  let ?r1 = "row_dict [u ''date'', u ''mood'', u ''comment'']
               [u ''2019-01-14'', u ''amazing'', u ''great day!'']"
  let ?r2 = "row_dict [u ''date'', u ''mood'', u ''comment''] [u ''2019-01-15'', u ''weird'', []]"
  have rows: "dict_reader (file_lines ?text) = ([?r1, ?r2], None)"
    by (simp add: reader_eval del: fold_simps)
  have mem: "?r2 \<in> set [?r1, ?r2]" by simp
  have bad: "(\<exists>s. ?r2 (u ''date'') = Some (Some s) \<and> (\<forall>d. date_from_iso sample_env s \<noteq> Inr d))
         \<or> (\<exists>s. ?r2 (u ''mood'') = Some (Some s) \<and> (\<forall>m. s \<noteq> name m))"
  proof -
    have "\<forall>m. u ''weird'' \<noteq> name m"
    proof
      fix m show "u ''weird'' \<noteq> name m" by (cases m) (simp_all add: u_def)
    qed
    moreover have "?r2 (u ''mood'') = Some (Some (u ''weird''))" by (simp add: row_dict_def u_def)
    ultimately show ?thesis by blast
  qed
  have fsf: "[?f \<mapsto> ?text] ?f = Some ?text" by simp
  from load_all_or_nothing[of "[?f \<mapsto> ?text]" "?f" "?text" "[?r1, ?r2]" None "?r2" sample_env,
      OF fsf rows mem bad]
  show ?thesis by blast
qed

text \<open>
  C2, as the program has it.  Let the codec of the locale give back every ASCII character
  as it is.  For every sequence of entries whose dates are dates of the calendar and whose
  comments are strings of at most 131072 characters (the field limit of the reader), each
  character of which the codec gives back as it is, the text written (the header
  \<^verbatim>\<open>"date","mood","comment"\<close>, then one row per entry with the date as \<^verbatim>\<open>YYYY-MM-DD\<close>,
  the name of the mood and the comment, every field quoted) is read back as the same
  sequence, in the same order, whether or not the dates are distinct.  A comment with a
  character that the encoder refuses makes writing raise \<^verbatim>\<open>UnicodeEncodeError\<close>.
\<close>

theorem csv_roundtrip:
  assumes "\<forall>c < 128. codec ev c = Some c"
    and "\<forall>e \<in> set days. valid_date (edate e)
             \<and> (\<exists>c. comment e = Some c \<and> length c \<le> field_limit
                    \<and> (\<forall>x \<in> set c. codec ev x = Some x))"
  shows "roundtrip ev days = Inr days
       \<and> csv_text ev days = Inr (writerow [u ''date'', u ''mood'', u ''comment'']
                                @ concat (map (\<lambda>e. writerow (row_of e)) days))
       \<and> (\<forall>fs file text. csv_text ev days = Inr text \<longrightarrow> fs file = Some text \<longrightarrow>
             read_days_from_file ev fs file = Inr days)
       \<and> (\<forall>ds e c x. e \<in> set ds \<longrightarrow> comment e = Some c \<longrightarrow> x \<in> set c \<longrightarrow> codec ev x = None \<longrightarrow>
             roundtrip ev ds = Inl UnicodeEncodeError)"
proof -
  have enc: "\<forall>e \<in> set days. valid_date (edate e)
           \<and> (\<forall>c. comment e = Some c \<longrightarrow> (\<forall>x \<in> set c. codec ev x = Some x))"
    using assms(2) by auto
  have len: "\<forall>e \<in> set days. valid_date (edate e)
             \<and> (\<exists>c. comment e = Some c \<and> length c \<le> field_limit)"
    using assms(2) by auto
  have t: "csv_text ev days
           = Inr (writerow fieldnames @ concat (map (\<lambda>e. writerow (row_of e)) days))"
    using assms(1) enc by (rule csv_text_concat)
  have p: "parse_days ev (writerow fieldnames @ concat (map (\<lambda>e. writerow (row_of e)) days))
           = Inr days"
    using len by (rule parse_csv_text)
  have 1: "roundtrip ev days = Inr days"
    by (simp add: roundtrip_def t p)
  have 2: "csv_text ev days = Inr (writerow [u ''date'', u ''mood'', u ''comment'']
                                @ concat (map (\<lambda>e. writerow (row_of e)) days))"
    using t by (simp add: fieldnames_def)
  have 3: "\<forall>fs file text. csv_text ev days = Inr text \<longrightarrow> fs file = Some text \<longrightarrow>
             read_days_from_file ev fs file = Inr days"
    using p by (simp add: t read_days_from_file_def)
  have 4: "\<forall>ds e c x. e \<in> set ds \<longrightarrow> comment e = Some c \<longrightarrow> x \<in> set c \<longrightarrow> codec ev x = None \<longrightarrow>
             roundtrip ev ds = Inl UnicodeEncodeError"
    using csv_text_refused by (simp add: roundtrip_def)
  from 1 2 3 4 show ?thesis by (intro conjI)
qed

theorem csv_roundtrip_witness:
  "valid_date \<lparr>year = 2019, month = 1, day = 14\<rparr>
   \<and> length [ch CHR ''a'', quotechar, 0xE9, delimiter, CR, LF, 0x664] \<le> field_limit
   \<and> roundtrip sample_env
        [\<lparr>edate = \<lparr>year = 2019, month = 1, day = 14\<rparr>, mood = amazing,
          comment = Some [ch CHR ''a'', quotechar, 0xE9, delimiter, CR, LF, 0x664]\<rparr>,
         \<lparr>edate = \<lparr>year = 2019, month = 1, day = 14\<rparr>, mood = sad, comment = Some []\<rparr>]
      = Inr
        [\<lparr>edate = \<lparr>year = 2019, month = 1, day = 14\<rparr>, mood = amazing,
          comment = Some [ch CHR ''a'', quotechar, 0xE9, delimiter, CR, LF, 0x664]\<rparr>,
         \<lparr>edate = \<lparr>year = 2019, month = 1, day = 14\<rparr>, mood = sad, comment = Some []\<rparr>]
   \<and> codec sample_env 0xDCE9 = None
   \<and> roundtrip sample_env
        [\<lparr>edate = \<lparr>year = 2019, month = 1, day = 14\<rparr>, mood = amazing,
          comment = Some (u ''caf'' @ [0xDCE9])\<rparr>] = Inl UnicodeEncodeError"
proof -
  let ?c = "[ch CHR ''a'', quotechar, 0xE9, delimiter, CR, LF, 0x664]"
  let ?days = "[\<lparr>edate = \<lparr>year = 2019, month = 1, day = 14\<rparr>, mood = amazing,
          comment = Some ?c\<rparr>,
         \<lparr>edate = \<lparr>year = 2019, month = 1, day = 14\<rparr>, mood = sad, comment = Some []\<rparr>]"
  let ?e = "\<lparr>edate = \<lparr>year = 2019, month = 1, day = 14\<rparr>, mood = amazing,
          comment = Some (u ''caf'' @ [0xDCE9])\<rparr>"
  have v: "valid_date \<lparr>year = 2019, month = 1, day = 14\<rparr>"
    by (simp add: valid_date_def days_in_month_def)
  have l: "length ?c \<le> field_limit"
    by (simp add: field_limit_def)
  have a: "\<forall>c < 128. codec sample_env c = Some c"
    by (simp add: sample_env_def)
  have x: "\<forall>x \<in> set ?c. codec sample_env x = Some x"
    by (simp add: sample_env_def)
  have r: "codec sample_env 0xDCE9 = None"
    by (simp add: sample_env_def)
  have h: "\<forall>e \<in> set ?days. valid_date (edate e)
             \<and> (\<exists>c. comment e = Some c \<and> length c \<le> field_limit
                    \<and> (\<forall>x \<in> set c. codec sample_env x = Some x))"
    using v l x by simp
  note rt = csv_roundtrip[OF a h]
  have 1: "roundtrip sample_env ?days = Inr ?days" using rt by (rule conjunct1)
  have "?e \<in> set [?e] \<longrightarrow> comment ?e = Some (u ''caf'' @ [0xDCE9])
          \<longrightarrow> 0xDCE9 \<in> set (u ''caf'' @ [0xDCE9]) \<longrightarrow> codec sample_env 0xDCE9 = None
          \<longrightarrow> roundtrip sample_env [?e] = Inl UnicodeEncodeError"
    using rt by blast
  then have 2: "roundtrip sample_env [?e] = Inl UnicodeEncodeError"
    using r by simp
  from v l 1 r 2 show ?thesis by (intro conjI)
qed

text \<open>
  C2, as the specification has it, fails: the comment is not arbitrary.  An entry whose
  comment has 131073 characters is written, and reading the text back raises the error
  of the reader for a field over the limit; an entry whose comment holds a lone surrogate
  cannot be written with the codec UTF-8.
\<close>

theorem csv_roundtrip_long_comment:
  "roundtrip sample_env [\<lparr>edate = \<lparr>year = 2019, month = 1, day = 14\<rparr>, mood = amazing,
               comment = Some (replicate 131073 (ch CHR ''a''))\<rparr>] = Inl CsvError
   \<and> distinct (map edate [\<lparr>edate = \<lparr>year = 2019, month = 1, day = 14\<rparr>, mood = amazing,
               comment = Some (replicate 131073 (ch CHR ''a''))\<rparr>])
   \<and> roundtrip sample_env [\<lparr>edate = \<lparr>year = 2019, month = 1, day = 14\<rparr>, mood = amazing,
               comment = Some [ch CHR ''c'', ch CHR ''a'', ch CHR ''f'', 0xDCE9]\<rparr>]
       = Inl UnicodeEncodeError"
proof -
  let ?e = "\<lparr>edate = \<lparr>year = 2019, month = 1, day = 14\<rparr>, mood = amazing,
               comment = Some (replicate 131073 (ch CHR ''a''))\<rparr>"
  let ?s = "\<lparr>edate = \<lparr>year = 2019, month = 1, day = 14\<rparr>, mood = amazing,
               comment = Some [ch CHR ''c'', ch CHR ''a'', ch CHR ''f'', 0xDCE9]\<rparr>"
  have v: "valid_date (edate ?e)"
    by (simp add: valid_date_def days_in_month_def)
  have c: "comment ?e = Some (replicate 131073 (ch CHR ''a''))" by simp
  have l: "field_limit < length (replicate 131073 (ch CHR ''a''))"
    by (simp only: length_replicate field_limit_def)
  have a: "\<forall>c < 128. codec sample_env c = Some c"
    by (simp add: sample_env_def)
  have p: "\<forall>e \<in> set [?e]. valid_date (edate e)
           \<and> (\<forall>c. comment e = Some c \<longrightarrow> (\<forall>x \<in> set c. codec sample_env x = Some x))"
    using v by (simp add: sample_env_def)
  from parse_long_comment[OF v c l, of sample_env "[]"]
  have 1: "roundtrip sample_env [?e] = Inl CsvError"
    by (simp only: roundtrip_def csv_text_concat[OF a p] sum.case)
  have "codec sample_env 0xDCE9 = None" by (simp add: sample_env_def)
  from csv_text_refused[of ?s "[?s]" "[ch CHR ''c'', ch CHR ''a'', ch CHR ''f'', 0xDCE9]"
      "0xDCE9" sample_env, OF _ _ _ this]
  have 2: "roundtrip sample_env [?s] = Inl UnicodeEncodeError"
    by (simp add: roundtrip_def)
  from 1 2 show ?thesis by simp
qed

section \<open>Saving\<close>

lemma mkstemp_fresh: "mkstemp dir nms fs = Inr tmp \<Longrightarrow> fs tmp = None \<and> fst tmp = dir"
  by (induction nms) (auto split: if_splits)

lemma write_rows_other:
  "write_rows ev fs p days fault = (r, fs') \<Longrightarrow> q \<noteq> p \<Longrightarrow> fs' q = fs q"
proof (induction days arbitrary: fs fault)
  case Nil
  then show ?case by simp
next
  case (Cons d ds)
  show ?case
  proof (cases "encode_write ev (writerow (row_of d))")
    case (Inl e)
    then show ?thesis using Cons.prems by (simp add: row_text_row_of)
  next
    case (Inr t)
    show ?thesis
    proof (cases "fault = Some 0")
      case True
      then show ?thesis using Cons.prems Inr by (simp add: row_text_row_of)
    next
      case False
      then have "write_rows ev (append_text fs p t) p ds (map_option (\<lambda>n. n - 1) fault) = (r, fs')"
        using Cons.prems(1) Inr by (simp add: row_text_row_of)
      from Cons.IH[OF this Cons.prems(2)] show ?thesis
        using Cons.prems(2) by (simp add: append_text_def)
    qed
  qed
qed

lemma write_rows_ok:
  assumes "rows_text ev days = Inr ts" and "\<forall>k. fault = Some k \<longrightarrow> length days \<le> k"
    and "fs p = Some pre"
  shows "write_rows ev fs p days fault = (None, fs(p \<mapsto> pre @ ts))"
  using assms
proof (induction days arbitrary: fs fault ts pre)
  case Nil
  then show ?case by (simp add: fun_upd_idem)
next
  case (Cons d ds)
  from Cons.prems(1) obtain t ts' where t: "encode_write ev (writerow (row_of d)) = Inr t"
    and ts': "rows_text ev ds = Inr ts'" and ts: "ts = t @ ts'"
    by (auto simp: row_text_row_of split: sum.splits)
  have nf: "fault \<noteq> Some 0" using Cons.prems(2) by auto
  have f': "\<forall>k. map_option (\<lambda>n. n - 1) fault = Some k \<longrightarrow> length ds \<le> k"
    using Cons.prems(2) by (cases fault) auto
  have a: "append_text fs p t p = Some (pre @ t)"
    using Cons.prems(3) by (simp add: append_text_def)
  have step: "write_rows ev fs p (d # ds) fault
              = write_rows ev (append_text fs p t) p ds (map_option (\<lambda>n. n - 1) fault)"
    using t nf by (simp add: row_text_row_of)
  have upd: "(append_text fs p t)(p \<mapsto> (pre @ t) @ ts') = fs(p \<mapsto> pre @ ts)"
    by (simp add: append_text_def ts)
  have "write_rows ev (append_text fs p t) p ds (map_option (\<lambda>n. n - 1) fault)
        = (None, (append_text fs p t)(p \<mapsto> (pre @ t) @ ts'))"
    by (rule Cons.IH[where fs = "append_text fs p t" and ts = ts' and pre = "pre @ t", OF ts' f' a])
  then show ?case
    unfolding step upd .
qed

lemma write_rows_fault:
  "k < length days \<Longrightarrow> fst (write_rows ev fs p days (Some k)) \<noteq> None"
proof (induction days arbitrary: fs k)
  case Nil
  then show ?case by simp
next
  case (Cons d ds)
  show ?case
  proof (cases k)
    case 0
    then show ?thesis by (simp add: row_text_row_of split: sum.splits)
  next
    case (Suc j)
    then have "j < length ds" using Cons.prems by simp
    from Cons.IH[OF this] show ?thesis using Suc by (simp add: row_text_row_of split: sum.splits)
  qed
qed

lemma write_rows_error:
  "rows_text ev days = Inl e \<Longrightarrow> fst (write_rows ev fs p days fault) \<noteq> None"
proof (induction days arbitrary: fs fault)
  case Nil
  then show ?case by simp
next
  case (Cons d ds)
  show ?case
  proof (cases "encode_write ev (writerow (row_of d))")
    case (Inl er)
    then show ?thesis by (simp add: row_text_row_of)
  next
    case (Inr t)
    then have "rows_text ev ds = Inl e"
      using Cons.prems by (simp add: row_text_row_of split: sum.splits)
    from Cons.IH[OF this] show ?thesis using Inr by (simp add: row_text_row_of)
  qed
qed

lemma write_temp_other:
  assumes "write_temp ev fs tmp days fault = (r, fs2)" and "q \<noteq> tmp"
  shows "fs2 q = fs q"
proof (cases "encode_write ev header_text")
  case (Inl e)
  then show ?thesis using assms by (auto simp: write_temp_def)
next
  case (Inr ht)
  show ?thesis
  proof (cases "fault = Some 0")
    case True
    then show ?thesis using assms Inr by (auto simp: write_temp_def)
  next
    case False
    then have "write_rows ev (append_text (fs(tmp \<mapsto> [])) tmp ht) tmp days
                 (map_option (\<lambda>n. n - 1) fault) = (r, fs2)"
      using assms(1) Inr by (simp add: write_temp_def)
    from write_rows_other[OF this assms(2)] show ?thesis
      using assms(2) by (simp add: append_text_def)
  qed
qed

lemma write_temp_ok:
  assumes "csv_text ev days = Inr text" and "\<forall>k. fault = Some k \<longrightarrow> length days < k"
  shows "write_temp ev fs tmp days fault = (None, fs(tmp \<mapsto> text))"
proof -
  from assms(1) obtain ht ts where ht: "encode_write ev header_text = Inr ht"
    and ts: "rows_text ev days = Inr ts" and tx: "text = ht @ ts"
    by (auto simp: csv_text_def split: sum.splits)
  have nf: "fault \<noteq> Some 0" using assms(2) by auto
  have f': "\<forall>k. map_option (\<lambda>n. n - 1) fault = Some k \<longrightarrow> length days \<le> k"
    using assms(2) by (cases fault) auto
  have a: "append_text (fs(tmp \<mapsto> [])) tmp ht tmp = Some ht"
    by (simp add: append_text_def)
  from write_rows_ok[where fs = "append_text (fs(tmp \<mapsto> [])) tmp ht" and pre = ht, OF ts f' a]
  show ?thesis
    using ht nf tx by (simp add: write_temp_def append_text_def)
qed

lemma write_temp_fault:
  assumes "k \<le> length days"
  shows "fst (write_temp ev fs tmp days (Some k)) \<noteq> None"
proof (cases "encode_write ev header_text")
  case (Inl e)
  then show ?thesis by (simp add: write_temp_def)
next
  case (Inr ht)
  show ?thesis
  proof (cases k)
    case 0
    then show ?thesis using Inr by (simp add: write_temp_def)
  next
    case (Suc j)
    then have "j < length days" using assms by simp
    from write_rows_fault[OF this] show ?thesis using Inr Suc by (simp add: write_temp_def)
  qed
qed

lemma write_temp_error:
  assumes "csv_text ev days = Inl e"
  shows "fst (write_temp ev fs tmp days fault) \<noteq> None"
proof (cases "encode_write ev header_text")
  case (Inl er)
  then show ?thesis by (simp add: write_temp_def)
next
  case (Inr ht)
  then have "rows_text ev days = Inl e"
    using assms by (simp add: csv_text_def split: sum.splits)
  from write_rows_error[OF this] show ?thesis using Inr by (simp add: write_temp_def)
qed

lemma save_write_fails:
  assumes "fs file = Some old" and "mkstemp (tempdir ev) (names ev) fs = Inr tmp"
    and "write_temp ev fs tmp days fault = (Some e, fs2)"
  shows "save ev fs file days fault mv = (Some e, fs2) \<and> fs2 file = Some old
         \<and> (\<forall>p. p \<noteq> tmp \<longrightarrow> fs2 p = fs p)"
proof -
  from mkstemp_fresh[OF assms(2)] assms(1) have ne: "file \<noteq> tmp" by auto
  have "fs2 q = fs q" if "q \<noteq> tmp" for q
    using write_temp_other[OF assms(3) that] .
  then show ?thesis using assms ne by (simp add: save_def)
qed

lemma save_written:
  assumes "mkstemp (tempdir ev) (names ev) fs = Inr tmp"
    and "csv_text ev days = Inr text" and "\<forall>k. fault = Some k \<longrightarrow> length days < k"
  shows "save ev fs file days fault mv = move (fs(tmp \<mapsto> text)) tmp file mv"
  using assms(1) write_temp_ok[OF assms(2,3)] by (simp add: save_def)

text \<open>
  C1, as the program has it.  The entries are written to a new temporary file in the
  default directory for temporary files, which need not be the directory of the target.
  When a write fails, be it a failure of the device at the header or at a row or a
  character that the encoder refuses, saving raises that exception, the temporary file is
  not moved, the target keeps its text and no file but the temporary one is changed.
  When every write succeeds the temporary file holds the whole text and is moved onto the
  target: by a rename, or by a copy and removal when the rename is refused, after which
  the target holds the whole text and the temporary file is gone.  When the rename is
  refused and the copy cannot open the target, saving raises the exception of the open
  and the target keeps its text; when the copy fails after some characters, the target
  holds these characters only; when copying the metadata or removing the temporary file
  fails, the target holds the whole text and the temporary file stays.  When no name for
  the temporary file is free, saving raises and changes nothing.
\<close>

theorem save_atomic:
  assumes "fs file = Some old"
  shows "(\<forall>e. mkstemp (tempdir ev) (names ev) fs = Inl e \<longrightarrow>
            save ev fs file days fault mv = (Some e, fs))
       \<and> (\<forall>tmp. mkstemp (tempdir ev) (names ev) fs = Inr tmp \<longrightarrow>
            fst tmp = tempdir ev \<and> fs tmp = None \<and> tmp \<noteq> file
          \<and> (\<forall>e fs2. write_temp ev fs tmp days fault = (Some e, fs2) \<longrightarrow>
                save ev fs file days fault mv = (Some e, fs2) \<and> fs2 file = Some old
                \<and> (\<forall>p. p \<noteq> tmp \<longrightarrow> fs2 p = fs p))
          \<and> (\<forall>k. fault = Some k \<longrightarrow> k \<le> length days \<longrightarrow>
                fst (write_temp ev fs tmp days fault) \<noteq> None)
          \<and> (\<forall>e. csv_text ev days = Inl e \<longrightarrow> fst (write_temp ev fs tmp days fault) \<noteq> None)
          \<and> (\<forall>text. csv_text ev days = Inr text \<longrightarrow> (\<forall>k. fault = Some k \<longrightarrow> length days < k) \<longrightarrow>
                write_temp ev fs tmp days fault = (None, fs(tmp \<mapsto> text))
              \<and> (mv = Rename_ok \<or> mv = Copy_ok \<longrightarrow>
                    save ev fs file days fault mv = (None, fs(file \<mapsto> text)))
              \<and> (\<forall>e. mv = Open_fails e \<longrightarrow>
                    save ev fs file days fault mv = (Some e, fs(tmp \<mapsto> text)))
              \<and> (\<forall>n. mv = Copy_fails n \<longrightarrow>
                    save ev fs file days fault mv
                    = (Some OSError, fs(tmp \<mapsto> text, file \<mapsto> take n text)))
              \<and> (mv = Copystat_fails \<or> mv = Unlink_fails \<longrightarrow>
                    save ev fs file days fault mv
                    = (Some OSError, fs(tmp \<mapsto> text, file \<mapsto> text)))))"
proof -
  have 1: "\<forall>e. mkstemp (tempdir ev) (names ev) fs = Inl e \<longrightarrow>
            save ev fs file days fault mv = (Some e, fs)"
    by (simp add: save_def)
  have 2: "fst tmp = tempdir ev \<and> fs tmp = None \<and> tmp \<noteq> file
          \<and> (\<forall>e fs2. write_temp ev fs tmp days fault = (Some e, fs2) \<longrightarrow>
                save ev fs file days fault mv = (Some e, fs2) \<and> fs2 file = Some old
                \<and> (\<forall>p. p \<noteq> tmp \<longrightarrow> fs2 p = fs p))
          \<and> (\<forall>k. fault = Some k \<longrightarrow> k \<le> length days \<longrightarrow>
                fst (write_temp ev fs tmp days fault) \<noteq> None)
          \<and> (\<forall>e. csv_text ev days = Inl e \<longrightarrow> fst (write_temp ev fs tmp days fault) \<noteq> None)
          \<and> (\<forall>text. csv_text ev days = Inr text \<longrightarrow> (\<forall>k. fault = Some k \<longrightarrow> length days < k) \<longrightarrow>
                write_temp ev fs tmp days fault = (None, fs(tmp \<mapsto> text))
              \<and> (mv = Rename_ok \<or> mv = Copy_ok \<longrightarrow>
                    save ev fs file days fault mv = (None, fs(file \<mapsto> text)))
              \<and> (\<forall>e. mv = Open_fails e \<longrightarrow>
                    save ev fs file days fault mv = (Some e, fs(tmp \<mapsto> text)))
              \<and> (\<forall>n. mv = Copy_fails n \<longrightarrow>
                    save ev fs file days fault mv
                    = (Some OSError, fs(tmp \<mapsto> text, file \<mapsto> take n text)))
              \<and> (mv = Copystat_fails \<or> mv = Unlink_fails \<longrightarrow>
                    save ev fs file days fault mv
                    = (Some OSError, fs(tmp \<mapsto> text, file \<mapsto> text))))"
    if mk: "mkstemp (tempdir ev) (names ev) fs = Inr tmp" for tmp
  proof -
    from mkstemp_fresh[OF mk] have fresh: "fs tmp = None" "fst tmp = tempdir ev" by simp_all
    then have ne: "tmp \<noteq> file" using assms by auto
    have a: "\<forall>e fs2. write_temp ev fs tmp days fault = (Some e, fs2) \<longrightarrow>
                save ev fs file days fault mv = (Some e, fs2) \<and> fs2 file = Some old
                \<and> (\<forall>p. p \<noteq> tmp \<longrightarrow> fs2 p = fs p)"
      using save_write_fails[of fs "file" old ev tmp days fault, OF assms mk] by blast
    have b: "\<forall>k. fault = Some k \<longrightarrow> k \<le> length days \<longrightarrow>
                fst (write_temp ev fs tmp days fault) \<noteq> None"
      using write_temp_fault by simp
    have c: "\<forall>e. csv_text ev days = Inl e \<longrightarrow> fst (write_temp ev fs tmp days fault) \<noteq> None"
      using write_temp_error by blast
    have d: "write_temp ev fs tmp days fault = (None, fs(tmp \<mapsto> tx))
              \<and> (mv = Rename_ok \<or> mv = Copy_ok \<longrightarrow>
                    save ev fs file days fault mv = (None, fs(file \<mapsto> tx)))
              \<and> (\<forall>e. mv = Open_fails e \<longrightarrow>
                    save ev fs file days fault mv = (Some e, fs(tmp \<mapsto> tx)))
              \<and> (\<forall>n. mv = Copy_fails n \<longrightarrow>
                    save ev fs file days fault mv
                    = (Some OSError, fs(tmp \<mapsto> tx, file \<mapsto> take n tx)))
              \<and> (mv = Copystat_fails \<or> mv = Unlink_fails \<longrightarrow>
                    save ev fs file days fault mv
                    = (Some OSError, fs(tmp \<mapsto> tx, file \<mapsto> tx)))"
      if t: "csv_text ev days = Inr tx" and nf: "\<forall>k. fault = Some k \<longrightarrow> length days < k"
      for tx
    proof -
      note w = write_temp_ok[OF t nf, of fs tmp]
      note s = save_written[OF mk t nf, of "file" mv]
      have gone: "(fs(tmp \<mapsto> tx, file \<mapsto> tx))(tmp := None) = fs(file \<mapsto> tx)"
        using fresh(1) ne by (auto simp: fun_upd_def)
      have gone': "((fs(tmp \<mapsto> tx))(tmp := None))(file \<mapsto> tx) = fs(file \<mapsto> tx)"
        using fresh(1) ne by (auto simp: fun_upd_def)
      have r: "mv = Rename_ok \<or> mv = Copy_ok \<longrightarrow>
                    save ev fs file days fault mv = (None, fs(file \<mapsto> tx))"
        unfolding s using gone gone' by (auto simp: move_def)
      have o: "\<forall>e. mv = Open_fails e \<longrightarrow>
                    save ev fs file days fault mv = (Some e, fs(tmp \<mapsto> tx))"
        unfolding s by (simp add: move_def)
      have cf: "\<forall>n. mv = Copy_fails n \<longrightarrow>
                    save ev fs file days fault mv
                    = (Some OSError, fs(tmp \<mapsto> tx, file \<mapsto> take n tx))"
        unfolding s by (simp add: move_def)
      have cs: "mv = Copystat_fails \<or> mv = Unlink_fails \<longrightarrow>
                    save ev fs file days fault mv
                    = (Some OSError, fs(tmp \<mapsto> tx, file \<mapsto> tx))"
        unfolding s by (auto simp: move_def)
      from w r o cf cs show ?thesis by (intro conjI)
    qed
    from fresh ne a b c d show ?thesis by (intro conjI allI impI) auto
  qed
  from 1 2 show ?thesis by (intro conjI allI impI) auto
qed

lemma sample_mkstemp:
  "fs (u ''/tmp'', u ''tmpabc'') = None \<Longrightarrow>
   mkstemp (tempdir sample_env) (names sample_env) fs = Inr (u ''/tmp'', u ''tmpabc'')"
  by (simp add: sample_env_def u_def)

lemma sample_csv_text:
  "csv_text sample_env
     [\<lparr>edate = \<lparr>year = 2019, month = 1, day = 14\<rparr>, mood = amazing,
       comment = Some (u ''great day!'')\<rparr>]
   = Inr (header_text
          @ writerow (row_of \<lparr>edate = \<lparr>year = 2019, month = 1, day = 14\<rparr>, mood = amazing,
                               comment = Some (u ''great day!'')\<rparr>))"
proof -
  have a: "\<forall>c < 128. codec sample_env c = Some c"
    by (simp add: sample_env_def)
  have "valid_date \<lparr>year = 2019, month = 1, day = 14\<rparr>"
    by (simp add: valid_date_def days_in_month_def)
  then have "\<forall>e \<in> set [\<lparr>edate = \<lparr>year = 2019, month = 1, day = 14\<rparr>, mood = amazing,
                            comment = Some (u ''great day!'')\<rparr>].
        valid_date (edate e)
        \<and> (\<forall>c. comment e = Some c \<longrightarrow> (\<forall>x \<in> set c. codec sample_env x = Some x))"
    by (auto simp: sample_env_def u_def)
  from csv_text_concat[OF a this] show ?thesis by (simp add: header_text_def)
qed

lemma sample_write_fault:
  "write_temp sample_env fs tmp
     [\<lparr>edate = \<lparr>year = 2019, month = 1, day = 14\<rparr>, mood = amazing,
       comment = Some (u ''great day!'')\<rparr>] (Some 1)
   = (Some OSError, fs(tmp \<mapsto> header_text))"
proof -
  let ?e = "\<lparr>edate = \<lparr>year = 2019, month = 1, day = 14\<rparr>, mood = amazing,
             comment = Some (u ''great day!'')\<rparr>"
  have a: "\<forall>c < 128. codec sample_env c = Some c"
    by (simp add: sample_env_def)
  have v: "valid_date (edate ?e)"
    by (simp add: valid_date_def days_in_month_def)
  have c: "\<forall>c. comment ?e = Some c \<longrightarrow> (\<forall>x \<in> set c. codec sample_env x = Some x)"
    by (auto simp: sample_env_def u_def)
  have "encode_write sample_env (writerow (row_of ?e)) = Inr (writerow (row_of ?e))"
    using row_plain[OF a v c] by (rule encode_write_plain)
  then show ?thesis
    by (simp add: write_temp_def header_plain[OF a] row_text_row_of append_text_def)
qed

theorem save_atomic_witness:
  "[(u ''/home/u'', u ''year_in_pixels.csv'') \<mapsto> u ''old''] (u ''/home/u'', u ''year_in_pixels.csv'')
     = Some (u ''old'')
   \<and> mkstemp (tempdir sample_env) (names sample_env)
        [(u ''/home/u'', u ''year_in_pixels.csv'') \<mapsto> u ''old''] = Inr (u ''/tmp'', u ''tmpabc'')
   \<and> save sample_env [(u ''/home/u'', u ''year_in_pixels.csv'') \<mapsto> u ''old'']
        (u ''/home/u'', u ''year_in_pixels.csv'')
        [\<lparr>edate = \<lparr>year = 2019, month = 1, day = 14\<rparr>, mood = amazing,
          comment = Some (u ''great day!'')\<rparr>] (Some 1) Rename_ok
      = (Some OSError,
         [(u ''/home/u'', u ''year_in_pixels.csv'') \<mapsto> u ''old'',
          (u ''/tmp'', u ''tmpabc'') \<mapsto> header_text])
   \<and> save sample_env [(u ''/home/u'', u ''year_in_pixels.csv'') \<mapsto> u ''old'']
        (u ''/home/u'', u ''year_in_pixels.csv'')
        [\<lparr>edate = \<lparr>year = 2019, month = 1, day = 14\<rparr>, mood = amazing,
          comment = Some (u ''great day!'')\<rparr>] None Rename_ok
      = (None,
         [(u ''/home/u'', u ''year_in_pixels.csv'') \<mapsto>
            header_text
            @ writerow (row_of \<lparr>edate = \<lparr>year = 2019, month = 1, day = 14\<rparr>, mood = amazing,
                                 comment = Some (u ''great day!'')\<rparr>)])"
proof -
  let ?f = "(u ''/home/u'', u ''year_in_pixels.csv'')"
  let ?tmp = "(u ''/tmp'', u ''tmpabc'')"
  let ?fs = "[?f \<mapsto> u ''old'']"
  let ?e = "\<lparr>edate = \<lparr>year = 2019, month = 1, day = 14\<rparr>, mood = amazing,
             comment = Some (u ''great day!'')\<rparr>"
  have old: "?fs ?f = Some (u ''old'')" by simp
  have "?fs ?tmp = None" by (simp add: u_def)
  then have mk: "mkstemp (tempdir sample_env) (names sample_env) ?fs = Inr ?tmp"
    by (rule sample_mkstemp)
  have w: "write_temp sample_env ?fs ?tmp [?e] (Some 1) = (Some OSError, ?fs(?tmp \<mapsto> header_text))"
    by (rule sample_write_fault)
  have t: "csv_text sample_env [?e] = Inr (header_text @ writerow (row_of ?e))"
    by (rule sample_csv_text)
  from save_atomic[of ?fs "?f" "u ''old''" sample_env "[?e]" "Some 1" Rename_ok, OF old] mk w
  have 1: "save sample_env ?fs ?f [?e] (Some 1) Rename_ok = (Some OSError, ?fs(?tmp \<mapsto> header_text))"
    by blast
  from save_atomic[of ?fs "?f" "u ''old''" sample_env "[?e]" None Rename_ok, OF old] mk t
  have 2: "save sample_env ?fs ?f [?e] None Rename_ok
           = (None, ?fs(?f \<mapsto> header_text @ writerow (row_of ?e)))"
    by simp
  from old mk 1 2 show ?thesis by simp
qed

text \<open>
  C1, as the specification has it, fails: the temporary file is not made in the directory
  of the target, and the move is not always a rename.  With \<^verbatim>\<open>/tmp\<close> as the directory
  for temporary files and a target in \<^verbatim>\<open>/home/u\<close>, on another file system, a copy that
  fails after three characters leaves these three characters in the target, although every
  write to the temporary file has succeeded.
\<close>

theorem save_temp_not_beside_target:
  "mkstemp (tempdir sample_env) (names sample_env)
     [(u ''/home/u'', u ''year_in_pixels.csv'') \<mapsto> u ''old''] = Inr (u ''/tmp'', u ''tmpabc'')
   \<and> fst (u ''/tmp'', u ''tmpabc'') \<noteq> fst (u ''/home/u'', u ''year_in_pixels.csv'')
   \<and> save sample_env [(u ''/home/u'', u ''year_in_pixels.csv'') \<mapsto> u ''old'']
        (u ''/home/u'', u ''year_in_pixels.csv'')
        [\<lparr>edate = \<lparr>year = 2019, month = 1, day = 14\<rparr>, mood = amazing,
          comment = Some (u ''great day!'')\<rparr>] None (Copy_fails 3)
      = (Some OSError,
         [(u ''/home/u'', u ''year_in_pixels.csv'') \<mapsto> take 3 header_text,
          (u ''/tmp'', u ''tmpabc'') \<mapsto>
            header_text
            @ writerow (row_of \<lparr>edate = \<lparr>year = 2019, month = 1, day = 14\<rparr>, mood = amazing,
                                 comment = Some (u ''great day!'')\<rparr>)])
   \<and> take 3 header_text \<noteq> u ''old''"
proof -
  let ?f = "(u ''/home/u'', u ''year_in_pixels.csv'')"
  let ?tmp = "(u ''/tmp'', u ''tmpabc'')"
  let ?fs = "[?f \<mapsto> u ''old'']"
  let ?e = "\<lparr>edate = \<lparr>year = 2019, month = 1, day = 14\<rparr>, mood = amazing,
             comment = Some (u ''great day!'')\<rparr>"
  have ne: "?tmp \<noteq> ?f" by (simp add: u_def)
  have "?fs ?tmp = None" by (simp add: u_def)
  then have mk: "mkstemp (tempdir sample_env) (names sample_env) ?fs = Inr ?tmp"
    by (rule sample_mkstemp)
  have d: "fst ?tmp \<noteq> fst ?f" by (simp add: u_def)
  have t: "csv_text sample_env [?e] = Inr (header_text @ writerow (row_of ?e))"
    by (rule sample_csv_text)
  have "save sample_env ?fs ?f [?e] None (Copy_fails 3)
        = move (?fs(?tmp \<mapsto> header_text @ writerow (row_of ?e))) ?tmp ?f (Copy_fails 3)"
    by (rule save_written[OF mk t]) simp
  also have "\<dots> = (Some OSError,
       (?fs(?tmp \<mapsto> header_text @ writerow (row_of ?e)))
         (?f \<mapsto> take 3 (header_text @ writerow (row_of ?e))))"
    by (simp add: move_def)
  also have "take 3 (header_text @ writerow (row_of ?e)) = take 3 header_text"
    by (simp add: header_text_def writerow_def fieldnames_def quoted_def u_def)
  also have "(?fs(?tmp \<mapsto> header_text @ writerow (row_of ?e)))(?f \<mapsto> take 3 header_text)
             = [?f \<mapsto> take 3 header_text, ?tmp \<mapsto> header_text @ writerow (row_of ?e)]"
    using ne by (auto simp: fun_upd_def)
  finally have s: "save sample_env ?fs ?f [?e] None (Copy_fails 3)
        = (Some OSError,
           [?f \<mapsto> take 3 header_text, ?tmp \<mapsto> header_text @ writerow (row_of ?e)])" .
  have o: "take 3 header_text \<noteq> u ''old''"
    by (simp add: header_text_def writerow_def fieldnames_def quoted_def u_def)
  from mk d s o show ?thesis by (intro conjI)
qed

section \<open>The command \<^verbatim>\<open>render\<close>\<close>

text \<open>
  C5.  The specification lets \<^verbatim>\<open>render\<close> end without an error when the file does not
  exist.  The program does not: opening the file raises \<^verbatim>\<open>FileNotFoundError\<close>, which
  \<^verbatim>\<open>render\<close> does not catch, while \<^verbatim>\<open>log\<close> catches it and goes on with no entries.
\<close>

theorem render_missing_store:
  "render_cmd sample_env Map.empty (u ''.'', u ''year_in_pixels.csv'') = Inl FileNotFoundError
   \<and> fst (log_cmd sample_env Map.empty (u ''.'', u ''year_in_pixels.csv'')
            \<lparr>edate = \<lparr>year = 2019, month = 1, day = 14\<rparr>, mood = amazing,
              comment = Some (u ''great day!'')\<rparr> None Rename_ok) = None"
proof -
  let ?f = "(u ''.'', u ''year_in_pixels.csv'')"
  let ?e = "\<lparr>edate = \<lparr>year = 2019, month = 1, day = 14\<rparr>, mood = amazing,
             comment = Some (u ''great day!'')\<rparr>"
  have 1: "render_cmd sample_env Map.empty ?f = Inl FileNotFoundError"
    by (simp add: render_cmd_def read_days_from_file_def)
  have mk: "mkstemp (tempdir sample_env) (names sample_env) Map.empty = Inr (u ''/tmp'', u ''tmpabc'')"
    by (rule sample_mkstemp) simp
  have "save sample_env Map.empty ?f [?e] None Rename_ok
        = move (Map.empty((u ''/tmp'', u ''tmpabc'') \<mapsto> header_text @ writerow (row_of ?e)))
            (u ''/tmp'', u ''tmpabc'') ?f Rename_ok"
    by (rule save_written[OF mk sample_csv_text]) simp
  then have "fst (save sample_env Map.empty ?f [?e] None Rename_ok) = None"
    by (simp add: move_def)
  then have 2: "fst (log_cmd sample_env Map.empty ?f ?e None Rename_ok) = None"
    by (simp add: log_cmd_def read_days_from_file_def upsert_def)
  from 1 2 show ?thesis by (intro conjI)
qed




end
